theory Spec2Isabelle
  imports
    Main
    "HOL-Library.AList"
    "HOL-Library.Char_ord"
    "HOL-Library.List_Lexorder"
    "HOL-Library.Multiset"
    "HOL-Library.Product_Lexorder"
    "HOL-Library.Sublist"
    "HOL-Library.Word"
begin

section \<open>gomigratex: data model\<close>

text \<open>
  Go strings are byte strings; they are modelled as \<open>string\<close> (lists of 8-bit characters).
  The Go comparison \<open>s < t\<close> on strings is the bytewise lexicographic order, which is the
  order that \<open>Char_ord\<close> and \<open>List_Lexorder\<close> give to \<open>char list\<close>.
  \<open>int64\<close> is \<open>64 word\<close>, so \<open>maxOrder++\<close> wraps as it does in Go.
\<close>

text \<open>\<open>fsutil.Pair\<close> (scanner.go).\<close>

record Pair =
  Version :: string
  Name :: string
  UpPath :: string
  DownPath :: string

text \<open>\<open>migrator.FilePair\<close> (planner.go).\<close>

record FilePair =
  Version :: string
  Name :: string
  UpPath :: string
  DownPath :: string
  UpBytes :: string
  DownBytes :: string
  Checksum :: string

text \<open>
  \<open>migrator.Row\<close>. \<open>AppliedAt\<close> is a clock reading in nanoseconds; \<open>DurationMS\<close> is kept as
  a mathematical integer (durations do not approach the \<open>int64\<close> range).
\<close>

record Row =
  Version :: string
  Name :: string
  Checksum :: string
  AppliedAt :: int
  AppliedBy :: string
  DurationMS :: int
  Status :: string
  ExecutionOrder :: "64 word"

text \<open>
  The calls the code makes on \<open>*sql.DB\<close>, \<open>*sql.Tx\<close> and \<open>Storage\<close>. Every call is
  recorded in the trace of the world together with its outcome (\<open>True\<close>: it returned no
  error).
\<close>

datatype op =
    OpGetAll
  | OpMaxExecutionOrder
  | OpBeginTx
  | OpExec string
  | OpRollback
  | OpCommit
  | OpUpsert Row
  | OpDelete string string

text \<open>The Go \<open>error\<close> values the modelled functions return.\<close>

datatype err =
    ReadDirError
  | ReadFileError string
  | NilPointer
  | DuplicateUp string
  | DuplicateDown string
  | MissingPair string
  | DBError op
  | ErrDrift string string string
  | MigrationFailed string string err
  | MissingDownFile string string
  | DownMigrationFailed string string err

text \<open>
  An event is a database call with its outcome, or an invocation of the progress callback
  (stage, file pair, the row passed by pointer, the error).
\<close>

datatype event =
    Call op bool
  | Progress string FilePair Row "err option"

text \<open>
  The world: the rows of the ledger table, the trace of events so far, and the number of
  clock readings taken.
\<close>

record world =
  ledger :: "Row list"
  trace :: "event list"
  ticks :: nat

text \<open>
  Everything outside the repository: whether a database call fails (it may depend on the
  whole history), the clock (\<open>time.Now()\<close> at the n-th reading, in nanoseconds), and
  \<open>checksum.SHA256\<close>, which wraps \<open>crypto/sha256\<close> and \<open>encoding/hex\<close>.
\<close>

record env =
  fails :: "op \<Rightarrow> event list \<Rightarrow> bool"
  now :: "nat \<Rightarrow> int"
  SHA256 :: "string \<Rightarrow> string"

section \<open>fsutil: scanning a directory listing\<close>

definition is_digit :: "char \<Rightarrow> bool" where
  "is_digit c = (CHR ''0'' \<le> c \<and> c \<le> CHR ''9'')"

definition is_name_char :: "char \<Rightarrow> bool" where
  "is_name_char c =
     ((CHR ''a'' \<le> c \<and> c \<le> CHR ''z'') \<or> (CHR ''A'' \<le> c \<and> c \<le> CHR ''Z'') \<or>
      (CHR ''0'' \<le> c \<and> c \<le> CHR ''9'') \<or> c = CHR ''_'' \<or> c = CHR ''-'')"

text \<open>
  \<open>fileRe.FindStringSubmatch\<close> for the anchored expression
  \<^verbatim>\<open>^(\d+)_([a-zA-Z0-9_\-]+)\.(up|down)\.sql$\<close>. The digits must be followed by an
  underscore and the name by a dot, neither of which is in the preceding class, so both
  groups are the maximal runs of their class and the match is unique.
\<close>

definition fileRe :: "string \<Rightarrow> (string \<times> string \<times> string) option" where
  "fileRe s =
     (let version = takeWhile is_digit s; r1 = dropWhile is_digit s in
      if version = [] then None
      else (case r1 of
              [] \<Rightarrow> None
            | c # r2 \<Rightarrow>
                if c \<noteq> CHR ''_'' then None
                else (let name = takeWhile is_name_char r2; r3 = dropWhile is_name_char r2 in
                      if name = [] then None
                      else if r3 = ''.up.sql'' then Some (version, name, ''up'')
                      else if r3 = ''.down.sql'' then Some (version, name, ''down'')
                      else None)))"

text \<open>A directory entry: \<open>IsDir()\<close> and \<open>Name()\<close>.\<close>

type_synonym DirEntry = "bool \<times> string"

text \<open>
  The Go map \<open>map[string]*Pair\<close> is an association list with distinct keys, in order of
  first insertion. \<open>p := out[key]; if p == nil { p = &Pair{...}; out[key] = p }\<close> followed by
  an assignment through the pointer is an update of the entry.
\<close>

fun scan_loop :: "(string \<Rightarrow> string) \<Rightarrow> DirEntry list \<Rightarrow> (string \<times> Pair) list \<Rightarrow>
    err + (string \<times> Pair) list" where
  "scan_loop full [] out = Inr out"
| "scan_loop full (e # es) out =
     (if fst e then scan_loop full es out
      else (case fileRe (snd e) of
              None \<Rightarrow> scan_loop full es out
            | Some (version, name, typ) \<Rightarrow>
                (let key = version @ '':'' @ name;
                     p = (case map_of out key of
                            None \<Rightarrow> \<lparr>Pair.Version = version, Pair.Name = name,
                                      Pair.UpPath = '''', Pair.DownPath = ''''\<rparr>
                          | Some p \<Rightarrow> p);
                     out = (case map_of out key of
                              None \<Rightarrow> AList.update key p out
                            | Some _ \<Rightarrow> out)
                 in if typ = ''up'' then
                      (if Pair.UpPath p \<noteq> '''' then Inl (DuplicateUp version)
                       else scan_loop full es
                              (AList.update key (p\<lparr>Pair.UpPath := full (snd e)\<rparr>) out))
                    else if typ = ''down'' then
                      (if Pair.DownPath p \<noteq> '''' then Inl (DuplicateDown version)
                       else scan_loop full es
                              (AList.update key (p\<lparr>Pair.DownPath := full (snd e)\<rparr>) out))
                    else scan_loop full es out)))"

text \<open>
  The validation loop ranges over the map in Go's unspecified order and reports the first
  incomplete pair it meets; the model reports the first one in insertion order.
\<close>

definition validate :: "(string \<times> Pair) list \<Rightarrow> err + (string \<times> Pair) list" where
  "validate out =
     (case find (\<lambda>(k, p). Pair.UpPath p = '''' \<or> Pair.DownPath p = '''') out of
        Some (k, p) \<Rightarrow> Inl (MissingPair k)
      | None \<Rightarrow> Inr out)"

definition scan :: "DirEntry list \<Rightarrow> (string \<Rightarrow> string) \<Rightarrow> err + (string \<times> Pair) list" where
  "scan entries full =
     (case scan_loop full entries [] of
        Inl e \<Rightarrow> Inl e
      | Inr out \<Rightarrow> validate out)"

text \<open>The files of a listing that the scanner takes into account, parsed.\<close>

definition parsed :: "DirEntry list \<Rightarrow> (string \<times> string \<times> string) list" where
  "parsed entries = List.map_filter (\<lambda>e. if fst e then None else fileRe (snd e)) entries"

definition other_half :: "string \<Rightarrow> string" where
  "other_half typ = (if typ = ''up'' then ''down'' else ''up'')"

definition incomplete :: "(string \<times> string \<times> string) list \<Rightarrow> bool" where
  "incomplete ps = (\<exists>(v, n, t) \<in> set ps. (v, n, other_half t) \<notin> set ps)"

text \<open>The name of the file that holds one half of a pair.\<close>

definition file_name :: "string \<Rightarrow> string \<Rightarrow> string \<Rightarrow> string" where
  "file_name v n t = v @ ''_'' @ n @ ''.'' @ t @ ''.sql''"

subsection \<open>SortKeys\<close>

text \<open>\<open>strings.SplitN(k, ":", 2)[0]\<close>: the part of the key before its first colon.\<close>

definition version_of :: "string \<Rightarrow> string" where
  "version_of k = takeWhile (\<lambda>c. c \<noteq> CHR '':'') k"

text \<open>The comparison closure handed to \<open>sort.Slice\<close>.\<close>

definition keys_less :: "string \<Rightarrow> string \<Rightarrow> bool" where
  "keys_less ki kj =
     (let vi = version_of ki; vj = version_of kj in
      if vi = vj then ki < kj else vi < vj)"

text \<open>
  \<open>sort.Slice\<close> is modelled by insertion sort. The keys of a map are distinct and
  \<open>keys_less\<close> is a strict linear order, so every sorting algorithm returns the same list
  (lemma \<open>SortKeys_unique\<close> below).
\<close>

fun insert_by :: "('a \<Rightarrow> 'a \<Rightarrow> bool) \<Rightarrow> 'a \<Rightarrow> 'a list \<Rightarrow> 'a list" where
  "insert_by lt x [] = [x]"
| "insert_by lt x (y # ys) = (if lt y x then y # insert_by lt x ys else x # y # ys)"

definition sort_Slice :: "('a \<Rightarrow> 'a \<Rightarrow> bool) \<Rightarrow> 'a list \<Rightarrow> 'a list" where
  "sort_Slice lt xs = foldr (insert_by lt) xs []"

definition SortKeys :: "(string \<times> Pair) list \<Rightarrow> string list" where
  "SortKeys m = sort_Slice keys_less (map fst m)"

section \<open>migrator: storage\<close>

definition keyOf :: "string \<Rightarrow> string \<Rightarrow> string" where
  "keyOf version name = version @ '':'' @ name"

text \<open>
  Modelled from the spec: \<open>migrator.Key\<close> is not among the sources. The spec keys the
  applied index by (version, name); the package's own test \<open>TestKey\<close> fixes the format,
  \<open>Key("v", "n") = "v:n"\<close>, which is that of \<open>keyOf\<close>.
\<close>

definition Key :: "string \<Rightarrow> string \<Rightarrow> string" where
  "Key version name = version @ '':'' @ name"

text \<open>A database call: its outcome is decided by the environment and it is logged.\<close>

definition call :: "env \<Rightarrow> op \<Rightarrow> world \<Rightarrow> bool \<times> world" where
  "call env x w =
     (let ok = \<not> fails env x (trace w) in (ok, w\<lparr>trace := trace w @ [Call x ok]\<rparr>))"

definition exec_op :: "env \<Rightarrow> op \<Rightarrow> world \<Rightarrow> err option \<times> world" where
  "exec_op env x w =
     (let (ok, w') = call env x w in (if ok then None else Some (DBError x), w'))"

definition time_Now :: "env \<Rightarrow> world \<Rightarrow> int \<times> world" where
  "time_Now env w = (now env (ticks w), w\<lparr>ticks := Suc (ticks w)\<rparr>)"

text \<open>\<open>Duration.Milliseconds()\<close> of a duration in nanoseconds (Go division truncates).\<close>

definition Milliseconds :: "int \<Rightarrow> int" where
  "Milliseconds d = (if 0 \<le> d then d div 1000000 else - ((- d) div 1000000))"

text \<open>
  The progress callback observes; the trace records where it is invoked (when it is not
  \<open>nil\<close>).
\<close>

definition progress :: "string \<Rightarrow> FilePair \<Rightarrow> Row \<Rightarrow> err option \<Rightarrow> world \<Rightarrow> world" where
  "progress stage fp row e w = w\<lparr>trace := trace w @ [Progress stage fp row e]\<rparr>"

text \<open>
  \<open>INSERT ... ON DUPLICATE KEY UPDATE\<close> on the unique key (version, name): an existing
  row keeps its place and takes the six other columns of the new row.
\<close>

fun upsert_row :: "Row \<Rightarrow> Row list \<Rightarrow> Row list" where
  "upsert_row r [] = [r]"
| "upsert_row r (x # xs) =
     (if Row.Version x = Row.Version r \<and> Row.Name x = Row.Name r
      then x\<lparr>Row.Checksum := Row.Checksum r, AppliedAt := AppliedAt r,
              Row.AppliedBy := Row.AppliedBy r, DurationMS := DurationMS r,
              Status := Status r, ExecutionOrder := ExecutionOrder r\<rparr> # xs
      else x # upsert_row r xs)"

definition delete_row :: "string \<Rightarrow> string \<Rightarrow> Row list \<Rightarrow> Row list" where
  "delete_row version name rows =
     filter (\<lambda>x. \<not> (Row.Version x = version \<and> Row.Name x = name)) rows"

text \<open>\<open>COALESCE(MAX(execution_order), 0)\<close> over a signed 64-bit column.\<close>

definition smax :: "64 word \<Rightarrow> 64 word \<Rightarrow> 64 word" where
  "smax a b = (if a <s b then b else a)"

definition max_order :: "Row list \<Rightarrow> 64 word" where
  "max_order rows =
     (case rows of [] \<Rightarrow> 0
      | r # rs \<Rightarrow> fold (\<lambda>x m. smax m (ExecutionOrder x)) rs (ExecutionOrder r))"

text \<open>The Go map that \<open>GetAll\<close> builds: a later row overwrites an earlier one with its key.\<close>

definition rows_map :: "Row list \<Rightarrow> (string \<rightharpoonup> Row)" where
  "rows_map rows = fold (\<lambda>r out. out(keyOf (Row.Version r) (Row.Name r) \<mapsto> r)) rows Map.empty"

definition GetAll :: "env \<Rightarrow> world \<Rightarrow> (err + (string \<rightharpoonup> Row)) \<times> world" where
  "GetAll env w =
     (let (ok, w') = call env OpGetAll w in
      (if ok then Inr (rows_map (ledger w')) else Inl (DBError OpGetAll), w'))"

definition MaxExecutionOrder :: "env \<Rightarrow> world \<Rightarrow> (err + 64 word) \<times> world" where
  "MaxExecutionOrder env w =
     (let (ok, w') = call env OpMaxExecutionOrder w in
      (if ok then Inr (max_order (ledger w')) else Inl (DBError OpMaxExecutionOrder), w'))"

definition Upsert :: "env \<Rightarrow> Row \<Rightarrow> world \<Rightarrow> err option \<times> world" where
  "Upsert env r w =
     (let (ok, w') = call env (OpUpsert r) w in
      if ok then (None, w'\<lparr>ledger := upsert_row r (ledger w')\<rparr>)
      else (Some (DBError (OpUpsert r)), w'))"

definition Delete :: "env \<Rightarrow> string \<Rightarrow> string \<Rightarrow> world \<Rightarrow> err option \<times> world" where
  "Delete env version name w =
     (let (ok, w') = call env (OpDelete version name) w in
      if ok then (None, w'\<lparr>ledger := delete_row version name (ledger w')\<rparr>)
      else (Some (DBError (OpDelete version name)), w'))"

text \<open>
  Transactions. The scripts are taken not to write to the ledger table, so the ledger
  changes through \<open>Upsert\<close> and \<open>Delete\<close> only; what a script does to the rest of the
  database is in the trace.
\<close>

definition BeginTx :: "env \<Rightarrow> world \<Rightarrow> err option \<times> world" where
  "BeginTx env w = exec_op env OpBeginTx w"

definition ExecContext :: "env \<Rightarrow> string \<Rightarrow> world \<Rightarrow> err option \<times> world" where
  "ExecContext env script w = exec_op env (OpExec script) w"

definition Rollback :: "env \<Rightarrow> world \<Rightarrow> err option \<times> world" where
  "Rollback env w = exec_op env OpRollback w"

definition Commit :: "env \<Rightarrow> world \<Rightarrow> err option \<times> world" where
  "Commit env w = exec_op env OpCommit w"

section \<open>migrator: planner\<close>

text \<open>
  The source of the change-sets as the planner sees it, through \<open>os\<close> or through the
  embedded \<open>fs.FS\<close> (the two branches of the code differ in nothing else): the listing
  of \<open>RootDir\<close>, \<open>filepath.Join(RootDir, name)\<close>, and the contents of the files.
\<close>

record FileSource =
  ReadDir :: "DirEntry list option"
  Join :: "string \<Rightarrow> string"
  ReadFile :: "string \<Rightarrow> string option"

record Plan =
  Pending :: "FilePair list"
  Applied :: "string \<rightharpoonup> Row"
  All_pairs :: "FilePair list"

text \<open>
  \<open>strings.EqualFold\<close> on ASCII strings (a hex digest is one): equality after mapping
  \<open>A\<close>-\<open>Z\<close> to \<open>a\<close>-\<open>z\<close>.
\<close>

definition to_lower :: "char \<Rightarrow> char" where
  "to_lower c = (if CHR ''A'' \<le> c \<and> c \<le> CHR ''Z'' then char_of (of_char c + (32::nat)) else c)"

definition EqualFold :: "string \<Rightarrow> string \<Rightarrow> bool" where
  "EqualFold s t = (map to_lower s = map to_lower t)"

text \<open>
  The loop that reads the two files of every pair, in the order of the sorted keys.
  \<open>pairs[k]\<close> of a key that is not in the map is a nil pointer, and the field access
  panics.
\<close>

fun read_pairs :: "env \<Rightarrow> FileSource \<Rightarrow> (string \<rightharpoonup> Pair) \<Rightarrow> string list \<Rightarrow> FilePair list \<Rightarrow>
    err + FilePair list" where
  "read_pairs env src pairs [] all = Inr all"
| "read_pairs env src pairs (k # keys) all =
     (case pairs k of
        None \<Rightarrow> Inl NilPointer
      | Some p \<Rightarrow>
          (case ReadFile src (Pair.UpPath p) of
             None \<Rightarrow> Inl (ReadFileError (Pair.UpPath p))
           | Some upb \<Rightarrow>
               (case ReadFile src (Pair.DownPath p) of
                  None \<Rightarrow> Inl (ReadFileError (Pair.DownPath p))
                | Some downb \<Rightarrow>
                    read_pairs env src pairs keys
                      (all @ [\<lparr>FilePair.Version = Pair.Version p, FilePair.Name = Pair.Name p,
                               FilePair.UpPath = Pair.UpPath p, FilePair.DownPath = Pair.DownPath p,
                               UpBytes = upb, DownBytes = downb, FilePair.Checksum = SHA256 env upb\<rparr>]))))"

text \<open>The first half of \<open>DiscoverAndPlan\<close>: scan, sort the keys, read and fingerprint.\<close>

definition discover :: "env \<Rightarrow> FileSource \<Rightarrow> err + FilePair list" where
  "discover env src =
     (case ReadDir src of
        None \<Rightarrow> Inl ReadDirError
      | Some entries \<Rightarrow>
          (case scan entries (Join src) of
             Inl e \<Rightarrow> Inl e
           | Inr pairs \<Rightarrow> read_pairs env src (map_of pairs) (SortKeys pairs) []))"

text \<open>The planning loop over \<open>all\<close>.\<close>

fun plan_loop :: "(string \<rightharpoonup> Row) \<Rightarrow> FilePair list \<Rightarrow> FilePair list \<Rightarrow> err + FilePair list" where
  "plan_loop applied [] pending = Inr pending"
| "plan_loop applied (fp # all) pending =
     (let k = FilePair.Version fp @ '':'' @ FilePair.Name fp in
      case applied k of
        Some row \<Rightarrow>
          if Status row = ''success'' \<and> \<not> EqualFold (Row.Checksum row) (FilePair.Checksum fp)
          then Inl (ErrDrift k (Row.Checksum row) (FilePair.Checksum fp))
          else plan_loop applied all (if Status row = ''failed'' then pending @ [fp] else pending)
      | None \<Rightarrow> plan_loop applied all (pending @ [fp]))"

definition DiscoverAndPlan :: "env \<Rightarrow> FileSource \<Rightarrow> world \<Rightarrow> (err + Plan) \<times> world" where
  "DiscoverAndPlan env src w =
     (case discover env src of
        Inl e \<Rightarrow> (Inl e, w)
      | Inr all \<Rightarrow>
          (case GetAll env w of
             (Inl e, w') \<Rightarrow> (Inl e, w')
           | (Inr applied, w') \<Rightarrow>
               (case plan_loop applied all [] of
                  Inl e \<Rightarrow> (Inl e, w')
                | Inr pending \<Rightarrow>
                    (Inr \<lparr>Pending = pending, Applied = applied, All_pairs = all\<rparr>, w'))))"

text \<open>The two conditions of the planning loop, as predicates on a pair and the ledger map.\<close>

definition drifted :: "(string \<rightharpoonup> Row) \<Rightarrow> FilePair \<Rightarrow> bool" where
  "drifted applied fp =
     (case applied (FilePair.Version fp @ '':'' @ FilePair.Name fp) of
        None \<Rightarrow> False
      | Some row \<Rightarrow>
          Status row = ''success'' \<and> \<not> EqualFold (Row.Checksum row) (FilePair.Checksum fp))"

definition is_pending :: "(string \<rightharpoonup> Row) \<Rightarrow> FilePair \<Rightarrow> bool" where
  "is_pending applied fp =
     (case applied (FilePair.Version fp @ '':'' @ FilePair.Name fp) of
        None \<Rightarrow> True
      | Some row \<Rightarrow> Status row = ''failed'')"

text \<open>The order of the plan: version first, then name, both as byte strings.\<close>

definition pair_less :: "FilePair \<Rightarrow> FilePair \<Rightarrow> bool" where
  "pair_less a b =
     (FilePair.Version a < FilePair.Version b \<or>
      (FilePair.Version a = FilePair.Version b \<and> FilePair.Name a < FilePair.Name b))"

section \<open>migrator: runner\<close>

text \<open>
  Of the fields of \<open>Runner\<close>, \<open>DB\<close> and \<open>Storage\<close> are the world; \<open>AppliedBy\<close> remains.
\<close>

record Runner =
  AppliedBy :: string

text \<open>
  The body of the loop of \<open>ApplyUp\<close>, after \<open>maxOrder++\<close>. \<open>Inl\<close> is a \<open>return\<close> with
  its two results (a \<open>nil\<close> slice is the empty list); \<open>Inr\<close> is the \<open>applied\<close> slice
  with which the loop goes on.
\<close>

definition ApplyUp_body :: "env \<Rightarrow> Runner \<Rightarrow> bool \<Rightarrow> FilePair \<Rightarrow> Row list \<Rightarrow> 64 word \<Rightarrow> world \<Rightarrow>
    ((Row list \<times> err option) + Row list) \<times> world" where
  "ApplyUp_body env r dryRun fp applied maxOrder w =
     (let (t, w) = time_Now env w;
          row = \<lparr>Row.Version = FilePair.Version fp, Row.Name = FilePair.Name fp,
                 Row.Checksum = FilePair.Checksum fp, AppliedAt = t,
                 Row.AppliedBy = Runner.AppliedBy r, DurationMS = 0,
                 Status = ''success'', ExecutionOrder = maxOrder\<rparr>;
          w = progress ''start'' fp row None w
      in if dryRun then (Inr (applied @ [row]), progress ''success'' fp row None w)
         else
           (let (start, w) = time_Now env w;
                (e, w) = BeginTx env w
            in case e of
                 Some err \<Rightarrow> (Inl ([], Some err), progress ''error'' fp row (Some err) w)
               | None \<Rightarrow>
                   (let (e, w) = ExecContext env (UpBytes fp) w
                    in case e of
                         Some err \<Rightarrow>
                           (let (_, w) = Rollback env w;
                                row = row\<lparr>Status := ''failed''\<rparr>;
                                (t2, w) = time_Now env w;
                                row = row\<lparr>DurationMS := Milliseconds (t2 - start)\<rparr>;
                                (_, w) = Upsert env row w;
                                w = progress ''error'' fp row (Some err) w
                            in (Inl (applied,
                                  Some (MigrationFailed (FilePair.Version fp) (FilePair.Name fp) err)), w))
                       | None \<Rightarrow>
                           (let (e, w) = Commit env w
                            in case e of
                                 Some err \<Rightarrow>
                                   (let row = row\<lparr>Status := ''failed''\<rparr>;
                                        (t2, w) = time_Now env w;
                                        row = row\<lparr>DurationMS := Milliseconds (t2 - start)\<rparr>;
                                        (_, w) = Upsert env row w;
                                        w = progress ''error'' fp row (Some err) w
                                    in (Inl (applied, Some err), w))
                               | None \<Rightarrow>
                                   (let (t2, w) = time_Now env w;
                                        row = row\<lparr>DurationMS := Milliseconds (t2 - start)\<rparr>;
                                        (e, w) = Upsert env row w
                                    in case e of
                                         Some err \<Rightarrow>
                                           (Inl (applied, Some err),
                                            progress ''error'' fp row (Some err) w)
                                       | None \<Rightarrow>
                                           (Inr (applied @ [row]),
                                            progress ''success'' fp row None w))))))"

fun ApplyUp_loop :: "env \<Rightarrow> Runner \<Rightarrow> bool \<Rightarrow> FilePair list \<Rightarrow> Row list \<Rightarrow> 64 word \<Rightarrow> world \<Rightarrow>
    (Row list \<times> err option) \<times> world" where
  "ApplyUp_loop env r dryRun [] applied maxOrder w = ((applied, None), w)"
| "ApplyUp_loop env r dryRun (fp # files) applied maxOrder w =
     (case ApplyUp_body env r dryRun fp applied (maxOrder + 1) w of
        (Inl ret, w') \<Rightarrow> (ret, w')
      | (Inr applied', w') \<Rightarrow> ApplyUp_loop env r dryRun files applied' (maxOrder + 1) w')"

definition ApplyUp :: "env \<Rightarrow> Runner \<Rightarrow> FilePair list \<Rightarrow> bool \<Rightarrow> world \<Rightarrow>
    (Row list \<times> err option) \<times> world" where
  "ApplyUp env r files dryRun w =
     (case MaxExecutionOrder env w of
        (Inl e, w') \<Rightarrow> (([], Some e), w')
      | (Inr maxOrder, w') \<Rightarrow> ApplyUp_loop env r dryRun files [] maxOrder w')"

text \<open>The body of the loop of \<open>ApplyDown\<close>: \<open>Some\<close> is a \<open>return\<close> of that error.\<close>

definition ApplyDown_body :: "env \<Rightarrow> (string \<rightharpoonup> FilePair) \<Rightarrow> bool \<Rightarrow> Row \<Rightarrow> world \<Rightarrow>
    err option \<times> world" where
  "ApplyDown_body env lookup dryRun row w =
     (case lookup (Row.Version row @ '':'' @ Row.Name row) of
        None \<Rightarrow> (Some (MissingDownFile (Row.Version row) (Row.Name row)), w)
      | Some fp \<Rightarrow>
          if dryRun then (None, w)
          else
            (let (e, w) = BeginTx env w
             in case e of
                  Some err \<Rightarrow> (Some err, w)
                | None \<Rightarrow>
                    (let (e, w) = ExecContext env (DownBytes fp) w
                     in case e of
                          Some err \<Rightarrow>
                            (let (_, w) = Rollback env w
                             in (Some (DownMigrationFailed (Row.Version row) (Row.Name row) err), w))
                        | None \<Rightarrow>
                            (let (e, w) = Commit env w
                             in case e of
                                  Some err \<Rightarrow> (Some err, w)
                                | None \<Rightarrow> Delete env (Row.Version row) (Row.Name row) w))))"

fun ApplyDown :: "env \<Rightarrow> Row list \<Rightarrow> (string \<rightharpoonup> FilePair) \<Rightarrow> bool \<Rightarrow> world \<Rightarrow>
    err option \<times> world" where
  "ApplyDown env [] lookup dryRun w = (None, w)"
| "ApplyDown env (row # toRevert) lookup dryRun w =
     (case ApplyDown_body env lookup dryRun row w of
        (Some e, w') \<Rightarrow> (Some e, w')
      | (None, w') \<Rightarrow> ApplyDown env toRevert lookup dryRun w')"

text \<open>The body of the loop of \<open>ForceBaseline\<close> for a pair that is not skipped.\<close>

definition ForceBaseline_body :: "env \<Rightarrow> Runner \<Rightarrow> bool \<Rightarrow> FilePair \<Rightarrow> Row list \<Rightarrow> 64 word \<Rightarrow>
    world \<Rightarrow> ((Row list \<times> err option) + Row list) \<times> world" where
  "ForceBaseline_body env r fake fp applied maxOrder w =
     (let (t, w) = time_Now env w;
          row = \<lparr>Row.Version = FilePair.Version fp, Row.Name = FilePair.Name fp,
                 Row.Checksum = FilePair.Checksum fp, AppliedAt = t,
                 Row.AppliedBy = Runner.AppliedBy r, DurationMS = 0,
                 Status = ''success'', ExecutionOrder = maxOrder\<rparr>;
          (e, w) =
            (if \<not> fake then
               (let (e, w) = BeginTx env w
                in case e of
                     Some err \<Rightarrow> (Some err, w)
                   | None \<Rightarrow>
                       (let (e, w) = ExecContext env (UpBytes fp) w
                        in case e of
                             Some err \<Rightarrow> (let (_, w) = Rollback env w in (Some err, w))
                           | None \<Rightarrow> Commit env w))
             else (None, w))
      in case e of
           Some err \<Rightarrow> (Inl (applied, Some err), w)
         | None \<Rightarrow>
             (let (e, w) = Upsert env row w
              in case e of
                   Some err \<Rightarrow> (Inl (applied, Some err), w)
                 | None \<Rightarrow> (Inr (applied @ [row]), w)))"

fun ForceBaseline_loop :: "env \<Rightarrow> Runner \<Rightarrow> string \<Rightarrow> bool \<Rightarrow> FilePair list \<Rightarrow> Row list \<Rightarrow>
    64 word \<Rightarrow> world \<Rightarrow> (Row list \<times> err option) \<times> world" where
  "ForceBaseline_loop env r version fake [] applied maxOrder w = ((applied, None), w)"
| "ForceBaseline_loop env r version fake (fp # all) applied maxOrder w =
     (if FilePair.Version fp > version
      then ForceBaseline_loop env r version fake all applied maxOrder w
      else (case ForceBaseline_body env r fake fp applied (maxOrder + 1) w of
              (Inl ret, w') \<Rightarrow> (ret, w')
            | (Inr applied', w') \<Rightarrow>
                ForceBaseline_loop env r version fake all applied' (maxOrder + 1) w'))"

definition ForceBaseline :: "env \<Rightarrow> Runner \<Rightarrow> FilePair list \<Rightarrow> string \<Rightarrow> bool \<Rightarrow> world \<Rightarrow>
    (Row list \<times> err option) \<times> world" where
  "ForceBaseline env r all version fake w =
     (case MaxExecutionOrder env w of
        (Inl e, w') \<Rightarrow> (([], Some e), w')
      | (Inr maxOrder, w') \<Rightarrow> ForceBaseline_loop env r version fake all [] maxOrder w')"

section \<open>cmd: repair\<close>

text \<open>
  \<open>repairChecksums\<close>. \<open>row\<close> is a copy of the entry of \<open>plan.Applied\<close>; \<open>changed\<close> is a Go
  \<open>int\<close>, which the length of a slice cannot overflow.
\<close>

fun repair_loop :: "env \<Rightarrow> (string \<rightharpoonup> Row) \<Rightarrow> bool \<Rightarrow> FilePair list \<Rightarrow> int \<Rightarrow> world \<Rightarrow>
    (int \<times> err option) \<times> world" where
  "repair_loop env applied dry [] changed w = ((changed, None), w)"
| "repair_loop env applied dry (fp # all) changed w =
     (case applied (Key (FilePair.Version fp) (FilePair.Name fp)) of
        None \<Rightarrow> repair_loop env applied dry all changed w
      | Some row \<Rightarrow>
          if EqualFold (Row.Checksum row) (FilePair.Checksum fp)
          then repair_loop env applied dry all changed w
          else
            (let row = row\<lparr>Row.Checksum := FilePair.Checksum fp\<rparr>;
                 (t, w) = time_Now env w;
                 row = row\<lparr>AppliedAt := t\<rparr>
             in if dry then repair_loop env applied dry all (changed + 1) w
                else (case Upsert env row w of
                        (Some err, w') \<Rightarrow> ((changed, Some err), w')
                      | (None, w') \<Rightarrow> repair_loop env applied dry all (changed + 1) w')))"

definition repairChecksums :: "env \<Rightarrow> Plan \<Rightarrow> bool \<Rightarrow> world \<Rightarrow> (int \<times> err option) \<times> world" where
  "repairChecksums env plan dry w = repair_loop env (Applied plan) dry (All_pairs plan) 0 w"

section \<open>Invariants\<close>

text \<open>The invariant of the scanning loop, over the triples seen so far.\<close>

definition good_pair :: "(string \<Rightarrow> string) \<Rightarrow> (string \<times> string \<times> string) list \<Rightarrow> string \<Rightarrow> Pair \<Rightarrow> bool" where
  "good_pair full seen k p \<longleftrightarrow>
     k = Pair.Version p @ '':'' @ Pair.Name p \<and> CHR '':'' \<notin> set (Pair.Version p) \<and>
     Pair.UpPath p = (if (Pair.Version p, Pair.Name p, ''up'') \<in> set seen
                      then full (file_name (Pair.Version p) (Pair.Name p) ''up'') else '''') \<and>
     Pair.DownPath p = (if (Pair.Version p, Pair.Name p, ''down'') \<in> set seen
                      then full (file_name (Pair.Version p) (Pair.Name p) ''down'') else '''') \<and>
     (\<exists>t. (Pair.Version p, Pair.Name p, t) \<in> set seen)"

definition scan_inv :: "(string \<Rightarrow> string) \<Rightarrow> (string \<times> Pair) list \<Rightarrow> (string \<times> string \<times> string) list \<Rightarrow> bool" where
  "scan_inv full out seen \<longleftrightarrow>
     distinct (map fst out) \<and>
     (\<forall>k p. map_of out k = Some p \<longrightarrow> good_pair full seen k p) \<and>
     (\<forall>v n t. (v, n, t) \<in> set seen \<longrightarrow>
        map_of out (v @ '':'' @ n) \<noteq> None \<and> (t = ''up'' \<or> t = ''down'') \<and> CHR '':'' \<notin> set v)"

text \<open>The map after one matching entry, in each of the four cases.\<close>

definition step_pair :: "(string \<times> Pair) list \<Rightarrow> string \<Rightarrow> string \<Rightarrow> Pair" where
  "step_pair out version name =
     (case map_of out (version @ '':'' @ name) of
        None \<Rightarrow> \<lparr>Pair.Version = version, Pair.Name = name, Pair.UpPath = '''', Pair.DownPath = ''''\<rparr>
      | Some p \<Rightarrow> p)"

definition step_out :: "(string \<times> Pair) list \<Rightarrow> string \<Rightarrow> string \<Rightarrow> (string \<times> Pair) list" where
  "step_out out version name =
     (case map_of out (version @ '':'' @ name) of
        None \<Rightarrow> AList.update (version @ '':'' @ name) (step_pair out version name) out
      | Some _ \<Rightarrow> out)"


text \<open>The key of a file pair in the ledger map, and the sort key that \<open>keys_less\<close> compares.\<close>

definition fp_key :: "FilePair \<Rightarrow> string" where
  "fp_key fp = FilePair.Version fp @ '':'' @ FilePair.Name fp"

definition sort_key_of :: "string \<Rightarrow> string \<times> string" where
  "sort_key_of k = (version_of k, k)"

subsection \<open>Concrete inputs\<close>

definition dir_join :: "string \<Rightarrow> string" where
  "dir_join name = ''migrations/'' @ name"

definition listing_dup :: "DirEntry list" where
  "listing_dup = [(False, ''1_a.up.sql''), (False, ''1_a.down.sql''), (False, ''1_a.up.sql'')]"

definition listing_half :: "DirEntry list" where
  "listing_half = [(False, ''1_a.up.sql''), (False, ''2_b.up.sql''), (False, ''2_b.down.sql'')]"

definition listing_ok :: "DirEntry list" where
  "listing_ok =
     [(False, ''2_b.up.sql''), (False, ''README.md''), (False, ''1_a.up.sql''),
      (True, ''3_c.up.sql''), (False, ''1_a.down.sql''), (False, ''2_b.down.sql'')]"

text \<open>
  An environment in which no database call fails, with the identity as a stand-in for the
  digest, and a source with the two pairs \<open>1_a\<close> and \<open>2_b\<close> listed out of order.
\<close>

definition env0 :: env where
  "env0 = \<lparr>fails = (\<lambda>x t. False), now = (\<lambda>n. 1000000 * int n), SHA256 = (\<lambda>b. b)\<rparr>"

definition src0 :: FileSource where
  "src0 = \<lparr>ReadDir = Some listing_ok, Join = dir_join,
            ReadFile = map_of
              [(''migrations/1_a.up.sql'', ''create a''), (''migrations/1_a.down.sql'', ''drop a''),
               (''migrations/2_b.up.sql'', ''create b''), (''migrations/2_b.down.sql'', ''drop b'')]\<rparr>"

definition fp_a :: FilePair where
  "fp_a = \<lparr>FilePair.Version = ''1'', FilePair.Name = ''a'',
           FilePair.UpPath = ''migrations/1_a.up.sql'', FilePair.DownPath = ''migrations/1_a.down.sql'',
           UpBytes = ''create a'', DownBytes = ''drop a'', FilePair.Checksum = ''create a''\<rparr>"

definition fp_b :: FilePair where
  "fp_b = \<lparr>FilePair.Version = ''2'', FilePair.Name = ''b'',
           FilePair.UpPath = ''migrations/2_b.up.sql'', FilePair.DownPath = ''migrations/2_b.down.sql'',
           UpBytes = ''create b'', DownBytes = ''drop b'', FilePair.Checksum = ''create b''\<rparr>"

definition row0 :: "string \<Rightarrow> string \<Rightarrow> string \<Rightarrow> string \<Rightarrow> 64 word \<Rightarrow> Row" where
  "row0 v n c s k =
     \<lparr>Row.Version = v, Row.Name = n, Row.Checksum = c, AppliedAt = 0,
      Row.AppliedBy = ''tester'', DurationMS = 5, Status = s, ExecutionOrder = k\<rparr>"

definition world0 :: "Row list \<Rightarrow> world" where
  "world0 rows = \<lparr>ledger = rows, trace = [], ticks = 0\<rparr>"

text \<open>
  Three ledgers: the later version applied (its digest recorded in upper case) and the
  earlier one never attempted; the first version applied with another digest; the first
  version failed and the second applied.
\<close>

definition ledger_b :: "Row list" where
  "ledger_b = [row0 ''2'' ''b'' ''CREATE B'' ''success'' 1]"

definition ledger_drift :: "Row list" where
  "ledger_drift = [row0 ''1'' ''a'' ''create x'' ''success'' 1]"

definition ledger_retry :: "Row list" where
  "ledger_retry = [row0 ''1'' ''a'' ''create x'' ''failed'' 1, row0 ''2'' ''b'' ''create b'' ''success'' 2]"

definition logged :: "op \<Rightarrow> world \<Rightarrow> world" where
  "logged x w = w\<lparr>trace := trace w @ [Call x True]\<rparr>"

definition plan_of :: "Row list \<Rightarrow> Plan" where
  "plan_of rows = \<lparr>Pending = [fp_a], Applied = rows_map rows, All_pairs = [fp_a, fp_b]\<rparr>"

definition src0_rev :: FileSource where
  "src0_rev = src0\<lparr>ReadDir := Some (rev listing_ok)\<rparr>"

section \<open>Properties\<close>

subsection \<open>Discovery\<close>

lemma takeWhile_sep: "c \<notin> set v \<Longrightarrow> takeWhile (\<lambda>x. x \<noteq> c) (v @ c # r) = v"
  by (induction v) auto

lemma key_inj:
  assumes "CHR '':'' \<notin> set v" "CHR '':'' \<notin> set v'" "v @ '':'' @ n = v' @ '':'' @ n'"
  shows "v = v' \<and> n = n'"
proof -
  have "takeWhile (\<lambda>x. x \<noteq> CHR '':'') (v @ CHR '':'' # n) = takeWhile (\<lambda>x. x \<noteq> CHR '':'') (v' @ CHR '':'' # n')"
    using assms(3) by simp
  then have "v = v'" using assms(1,2) by (simp add: takeWhile_sep)
  then show ?thesis using assms(3) by simp
qed

lemma digit_not_colon: "is_digit c \<Longrightarrow> c \<noteq> CHR '':''"
  by (auto simp: is_digit_def less_eq_char_def)

lemma fileRe_Some:
  assumes "fileRe s = Some (v, n, t)"
  shows "s = file_name v n t" "t = ''up'' \<or> t = ''down''" "v \<noteq> []" "\<forall>c\<in>set v. is_digit c"
    "n \<noteq> []" "\<forall>c\<in>set n. is_name_char c"
proof -
  define r1 where "r1 = dropWhile is_digit s"
  have s1: "s = takeWhile is_digit s @ r1" by (simp add: r1_def)
  from assms obtain r2 where r1: "r1 = CHR ''_'' # r2" and v: "v = takeWhile is_digit s" "v \<noteq> []"
    and rest: "takeWhile is_name_char r2 \<noteq> []" "n = takeWhile is_name_char r2"
       "(dropWhile is_name_char r2 = ''.up.sql'' \<and> t = ''up'') \<or> (dropWhile is_name_char r2 = ''.down.sql'' \<and> t = ''down'')"
    unfolding fileRe_def r1_def Let_def
    by (auto split: if_splits list.splits)
  have r2: "r2 = n @ dropWhile is_name_char r2" using rest(2) by simp
  show "s = file_name v n t"
    using s1 r1 v(1) r2 rest(3) unfolding file_name_def
    by (metis append_Cons append_Nil)
  show "t = ''up'' \<or> t = ''down''" using rest(3) by auto
  show "v \<noteq> []" by fact
  show "\<forall>c\<in>set v. is_digit c" using v(1) by (metis set_takeWhileD)
  show "n \<noteq> []" using rest by simp
  show "\<forall>c\<in>set n. is_name_char c" using rest(2) by (metis set_takeWhileD)
qed


lemma scan_inv_empty: "scan_inv full [] []"
  by (simp add: scan_inv_def)

lemma fileRe_no_colon: "fileRe s = Some (v, n, t) \<Longrightarrow> CHR '':'' \<notin> set v"
  using fileRe_Some(4) digit_not_colon by blast

lemma scan_inv_update:
  assumes inv: "scan_inv full out seen"
    and re: "fileRe s = Some (v, n, t)"
    and p': "Pair.Version p' = v" "Pair.Name p' = n"
        "Pair.UpPath p' = (if (v, n, ''up'') \<in> set (seen @ [(v, n, t)]) then full (file_name v n ''up'') else '''')"
        "Pair.DownPath p' = (if (v, n, ''down'') \<in> set (seen @ [(v, n, t)]) then full (file_name v n ''down'') else '''')"
    and m: "distinct (map fst out')" "map_of out' = (map_of out)(v @ '':'' @ n \<mapsto> p')"
  shows "scan_inv full out' (seen @ [(v, n, t)])"
proof -
  have nc: "CHR '':'' \<notin> set v" using re by (rule fileRe_no_colon)
  have tt: "t = ''up'' \<or> t = ''down''" using re by (rule fileRe_Some(2))
  have g: "good_pair full (seen @ [(v, n, t)]) k p" if kp: "map_of out' k = Some p" for k p
  proof (cases "k = v @ '':'' @ n")
    case True
    then have "p = p'" using kp m(2) by simp
    then show ?thesis using True p' nc unfolding good_pair_def by auto
  next
    case False
    then have old: "map_of out k = Some p" using kp m(2) by simp
    then have gp: "good_pair full seen k p" using inv unfolding scan_inv_def by blast
    have "(Pair.Version p, Pair.Name p) \<noteq> (v, n)" using gp False unfolding good_pair_def by auto
    then show ?thesis using gp unfolding good_pair_def by auto
  qed
  have keep: "map_of out' k \<noteq> None" if "map_of out k \<noteq> None" for k
    using that m(2) by auto
  have s: "map_of out' (v0 @ '':'' @ n0) \<noteq> None \<and> (t0 = ''up'' \<or> t0 = ''down'') \<and> CHR '':'' \<notin> set v0"
    if mem: "(v0, n0, t0) \<in> set (seen @ [(v, n, t)])" for v0 n0 t0
  proof (cases "(v0, n0, t0) = (v, n, t)")
    case True
    then show ?thesis using nc tt m(2) by simp
  next
    case False
    then have "(v0, n0, t0) \<in> set seen" using mem by auto
    then have "map_of out (v0 @ '':'' @ n0) \<noteq> None \<and> (t0 = ''up'' \<or> t0 = ''down'') \<and> CHR '':'' \<notin> set v0"
      using inv unfolding scan_inv_def by blast
    then show ?thesis using keep by blast
  qed
  show ?thesis unfolding scan_inv_def using m(1) g s by blast
qed

lemma parsed_Cons:
  "parsed (e # es) = (if fst e then parsed es
     else (case fileRe (snd e) of None \<Rightarrow> parsed es | Some x \<Rightarrow> x # parsed es))"
  by (simp add: parsed_def List.map_filter_simps split: option.splits)

lemma parsed_Nil: "parsed [] = []"
  by (simp add: parsed_def List.map_filter_simps)

lemma scan_inv_lookup:
  assumes inv: "scan_inv full out seen" and re: "fileRe s = Some (v, n, t)"
    and look: "map_of out (v @ '':'' @ n) = Some p"
  shows "Pair.Version p = v" "Pair.Name p = n"
    "Pair.UpPath p = (if (v, n, ''up'') \<in> set seen then full (file_name v n ''up'') else '''')"
    "Pair.DownPath p = (if (v, n, ''down'') \<in> set seen then full (file_name v n ''down'') else '''')"
proof -
  have gp: "good_pair full seen (v @ '':'' @ n) p" using inv look unfolding scan_inv_def by blast
  have nc: "CHR '':'' \<notin> set v" using re by (rule fileRe_no_colon)
  have vn: "v = Pair.Version p \<and> n = Pair.Name p"
    using key_inj[OF nc, of "Pair.Version p" n "Pair.Name p"] gp unfolding good_pair_def by blast
  show "Pair.Version p = v" "Pair.Name p = n" using vn by simp_all
  show "Pair.UpPath p = (if (v, n, ''up'') \<in> set seen then full (file_name v n ''up'') else '''')"
    using gp vn unfolding good_pair_def by simp
  show "Pair.DownPath p = (if (v, n, ''down'') \<in> set seen then full (file_name v n ''down'') else '''')"
    using gp vn unfolding good_pair_def by simp
qed

lemma scan_inv_absent:
  assumes inv: "scan_inv full out seen" and look: "map_of out (v @ '':'' @ n) = None"
  shows "(v, n, t) \<notin> set seen"
  using inv look unfolding scan_inv_def by blast

lemma scan_loop_Cons:
  "scan_loop full (e # es) out =
     (if fst e then scan_loop full es out
      else (case fileRe (snd e) of
              None \<Rightarrow> scan_loop full es out
            | Some (version, name, typ) \<Rightarrow>
                if typ = ''up'' then
                  (if Pair.UpPath (step_pair out version name) \<noteq> '''' then Inl (DuplicateUp version)
                   else scan_loop full es
                     (AList.update (version @ '':'' @ name)
                        ((step_pair out version name)\<lparr>Pair.UpPath := full (snd e)\<rparr>) (step_out out version name)))
                else if typ = ''down'' then
                  (if Pair.DownPath (step_pair out version name) \<noteq> '''' then Inl (DuplicateDown version)
                   else scan_loop full es
                     (AList.update (version @ '':'' @ name)
                        ((step_pair out version name)\<lparr>Pair.DownPath := full (snd e)\<rparr>) (step_out out version name)))
                else scan_loop full es (step_out out version name)))"
  by (simp add: step_pair_def step_out_def Let_def split: option.splits)

lemma step_out_facts:
  assumes "distinct (map fst out)"
  shows "distinct (map fst (AList.update (v @ '':'' @ n) q (step_out out v n)))"
    and "map_of (AList.update (v @ '':'' @ n) q (step_out out v n)) = (map_of out)(v @ '':'' @ n \<mapsto> q)"
  using assms by (auto simp: step_out_def distinct_update update_conv' split: option.splits)

lemma step_pair_facts:
  assumes inv: "scan_inv full out seen" and re: "fileRe s = Some (v, n, t)"
  shows "Pair.Version (step_pair out v n) = v \<and> Pair.Name (step_pair out v n) = n \<and>
    Pair.UpPath (step_pair out v n) = (if (v, n, ''up'') \<in> set seen then full (file_name v n ''up'') else '''') \<and>
    Pair.DownPath (step_pair out v n) = (if (v, n, ''down'') \<in> set seen then full (file_name v n ''down'') else '''')"
proof (cases "map_of out (v @ '':'' @ n)")
  case None
  then show ?thesis
    using scan_inv_absent[OF inv None] by (simp add: step_pair_def)
next
  case (Some p)
  then show ?thesis
    using scan_inv_lookup[OF inv re Some] by (simp add: step_pair_def)
qed

lemma scan_loop_char:
  assumes full: "\<forall>s. full s \<noteq> []" and inv: "scan_inv full out seen" and ds: "distinct seen"
  shows "if distinct (seen @ parsed es)
         then (\<exists>out'. scan_loop full es out = Inr out' \<and> scan_inv full out' (seen @ parsed es))
         else (\<exists>v. scan_loop full es out = Inl (DuplicateUp v) \<or> scan_loop full es out = Inl (DuplicateDown v))"
  using inv ds
proof (induction es arbitrary: out seen)
  case Nil
  then show ?case by (simp add: parsed_Nil)
next
  case (Cons e es)
  show ?case
  proof (cases "fst e \<or> fileRe (snd e) = None")
    case True
    then have "parsed (e # es) = parsed es" "scan_loop full (e # es) out = scan_loop full es out"
      by (auto simp: parsed_Cons)
    then show ?thesis using Cons.IH[OF Cons.prems] by simp
  next
    case False
    then obtain v n t where re: "fileRe (snd e) = Some (v, n, t)" and nd: "\<not> fst e"
      by (cases "fileRe (snd e)") auto
    have pc: "parsed (e # es) = (v, n, t) # parsed es" using re nd by (simp add: parsed_Cons)
    have tt: "t = ''up'' \<or> t = ''down''" using re by (rule fileRe_Some(2))
    have nm: "snd e = file_name v n t" using re by (rule fileRe_Some(1))
    note sp = step_pair_facts[OF Cons.prems(1) re]
    show ?thesis
    proof (cases "(v, n, t) \<in> set seen")
      case True
      then have nd2: "\<not> distinct (seen @ parsed (e # es))" using pc by simp
      have "scan_loop full (e # es) out = Inl (DuplicateUp v) \<or> scan_loop full (e # es) out = Inl (DuplicateDown v)"
        using tt True sp full nd re by (auto simp: scan_loop_Cons simp del: scan_loop.simps)
      then show ?thesis using nd2 by auto
    next
      case False
      define p' where "p' = (if t = ''up'' then (step_pair out v n)\<lparr>Pair.UpPath := full (snd e)\<rparr>
                             else (step_pair out v n)\<lparr>Pair.DownPath := full (snd e)\<rparr>)"
      define out' where "out' = AList.update (v @ '':'' @ n) p' (step_out out v n)"
      have step: "scan_loop full (e # es) out = scan_loop full es out'"
        using tt False sp nd re unfolding out'_def p'_def by (auto simp: scan_loop_Cons simp del: scan_loop.simps)
      have d: "distinct (map fst out)" using Cons.prems(1) unfolding scan_inv_def by simp
      have inv': "scan_inv full out' (seen @ [(v, n, t)])"
      proof (rule scan_inv_update[OF Cons.prems(1) re])
        show "Pair.Version p' = v" "Pair.Name p' = n" using sp by (simp_all add: p'_def)
        show "Pair.UpPath p' = (if (v, n, ''up'') \<in> set (seen @ [(v, n, t)]) then full (file_name v n ''up'') else '''')"
          using tt sp False nm by (auto simp: p'_def)
        show "Pair.DownPath p' = (if (v, n, ''down'') \<in> set (seen @ [(v, n, t)]) then full (file_name v n ''down'') else '''')"
          using tt sp False nm by (auto simp: p'_def)
        show "distinct (map fst out')" unfolding out'_def using d by (rule step_out_facts(1))
        show "map_of out' = (map_of out)(v @ '':'' @ n \<mapsto> p')" unfolding out'_def using d by (rule step_out_facts(2))
      qed
      have ds': "distinct (seen @ [(v, n, t)])" using Cons.prems(2) False by simp
      have eq: "(seen @ [(v, n, t)]) @ parsed es = seen @ parsed (e # es)" using pc by simp
      show ?thesis using Cons.IH[OF inv' ds'] unfolding eq step .
    qed
  qed
qed

declare scan_loop.simps(2) [simp del]

lemma scan_loop_ignores:
  "scan_loop full (filter (\<lambda>e. \<not> fst e \<and> fileRe (snd e) \<noteq> None) es) out = scan_loop full es out"
proof (induction es arbitrary: out)
  case Nil
  then show ?case by simp
next
  case (Cons e es)
  show ?case
  proof (cases "\<not> fst e \<and> fileRe (snd e) \<noteq> None")
    case True
    then show ?thesis
      using Cons.IH by (simp add: scan_loop_Cons split: option.splits)
  next
    case False
    then have "scan_loop full (e # es) out = scan_loop full es out"
      by (cases "fileRe (snd e)") (auto simp: scan_loop_Cons)
    then show ?thesis using False Cons.IH by auto
  qed
qed

lemma validate_char:
  assumes full: "\<forall>s. full s \<noteq> []" and inv: "scan_inv full out seen"
  shows "if incomplete seen then (\<exists>k. validate out = Inl (MissingPair k)) else validate out = Inr out"
proof -
  let ?bad = "\<lambda>(k, p). Pair.UpPath p = '''' \<or> Pair.DownPath p = ''''"
  have d: "distinct (map fst out)" using inv unfolding scan_inv_def by simp
  have iff: "(\<exists>x\<in>set out. ?bad x) \<longleftrightarrow> incomplete seen"
  proof
    assume "\<exists>x\<in>set out. ?bad x"
    then obtain k p where kp: "(k, p) \<in> set out" and bad: "Pair.UpPath p = '''' \<or> Pair.DownPath p = ''''"
      by auto
    have gp: "good_pair full seen k p" using inv kp d unfolding scan_inv_def by simp
    then obtain t where t: "(Pair.Version p, Pair.Name p, t) \<in> set seen" unfolding good_pair_def by blast
    then have tt: "t = ''up'' \<or> t = ''down''" using inv unfolding scan_inv_def by blast
    have "(Pair.Version p, Pair.Name p, other_half t) \<notin> set seen"
      using bad gp tt t full unfolding good_pair_def other_half_def by (auto split: if_splits)
    then show "incomplete seen" using t unfolding incomplete_def by blast
  next
    assume "incomplete seen"
    then obtain v n t where t: "(v, n, t) \<in> set seen" and o: "(v, n, other_half t) \<notin> set seen"
      unfolding incomplete_def by blast
    have f: "map_of out (v @ '':'' @ n) \<noteq> None" "t = ''up'' \<or> t = ''down''" "CHR '':'' \<notin> set v"
      using inv t unfolding scan_inv_def by blast+
    then obtain p where p: "map_of out (v @ '':'' @ n) = Some p" by blast
    then have gp: "good_pair full seen (v @ '':'' @ n) p" using inv unfolding scan_inv_def by blast
    have vn: "v = Pair.Version p \<and> n = Pair.Name p"
      using key_inj[OF f(3), of "Pair.Version p" n "Pair.Name p"] gp unfolding good_pair_def by blast
    have "Pair.UpPath p = '''' \<or> Pair.DownPath p = ''''"
      using gp vn o f(2) unfolding good_pair_def other_half_def by (auto split: if_splits)
    moreover have "(v @ '':'' @ n, p) \<in> set out" using p by (rule map_of_SomeD)
    ultimately show "\<exists>x\<in>set out. ?bad x" by blast
  qed
  show ?thesis
  proof (cases "incomplete seen")
    case True
    then obtain x where "find ?bad out = Some x" using iff by (cases "find ?bad out") (auto simp: find_None_iff)
    then show ?thesis using True by (auto simp: validate_def split: prod.splits)
  next
    case False
    then have "find ?bad out = None" using iff by (auto simp: find_None_iff)
    then show ?thesis using False by (simp add: validate_def)
  qed
qed

text \<open>
  C7. With \<open>parsed\<close> the list of the (version, name, half) triples of the files of the
  listing whose names match the pattern: discovery fails with a duplicate error whenever a
  triple occurs twice; when none does, it fails with a missing-pair error whenever some
  group of the whole listing lacks its other half, and succeeds otherwise, wherever in the
  listing the two halves stand; directories and entries whose names do not match are
  ignored: the result is that of the listing without them.
\<close>

theorem scan_errors:
  assumes "\<forall>s. full s \<noteq> []"
  shows "(\<not> distinct (parsed es) \<longrightarrow>
            (\<exists>v. scan es full = Inl (DuplicateUp v) \<or> scan es full = Inl (DuplicateDown v))) \<and>
         (distinct (parsed es) \<and> incomplete (parsed es) \<longrightarrow> (\<exists>k. scan es full = Inl (MissingPair k))) \<and>
         (distinct (parsed es) \<and> \<not> incomplete (parsed es) \<longrightarrow> (\<exists>out. scan es full = Inr out)) \<and>
         scan (filter (\<lambda>e. \<not> fst e \<and> fileRe (snd e) \<noteq> None) es) full = scan es full"
proof -
  have c: "if distinct (parsed es)
         then (\<exists>out'. scan_loop full es [] = Inr out' \<and> scan_inv full out' (parsed es))
         else (\<exists>v. scan_loop full es [] = Inl (DuplicateUp v) \<or> scan_loop full es [] = Inl (DuplicateDown v))"
    using scan_loop_char[OF assms scan_inv_empty, of es] unfolding append_Nil by simp
  have 1: "\<not> distinct (parsed es) \<longrightarrow>
            (\<exists>v. scan es full = Inl (DuplicateUp v) \<or> scan es full = Inl (DuplicateDown v))"
    using c by (auto simp: scan_def)
  have 2: "\<exists>k. scan es full = Inl (MissingPair k)" if dd: "distinct (parsed es)" and ii: "incomplete (parsed es)"
  proof -
    obtain out where o: "scan_loop full es [] = Inr out" "scan_inv full out (parsed es)"
      using c dd by auto
    show ?thesis using validate_char[OF assms o(2)] ii o(1) by (simp add: scan_def)
  qed
  have 3: "\<exists>out. scan es full = Inr out" if dd: "distinct (parsed es)" and ii: "\<not> incomplete (parsed es)"
  proof -
    obtain out where o: "scan_loop full es [] = Inr out" "scan_inv full out (parsed es)"
      using c dd by auto
    show ?thesis using validate_char[OF assms o(2)] ii o(1) by (simp add: scan_def)
  qed
  have 4: "scan (filter (\<lambda>e. \<not> fst e \<and> fileRe (snd e) \<noteq> None) es) full = scan es full"
    unfolding scan_def scan_loop_ignores ..
  show ?thesis using 1 2 3 4 by blast
qed


theorem scan_errors_witness:
  "(\<forall>s. dir_join s \<noteq> []) \<and>
   \<not> distinct (parsed listing_dup) \<and>
   (\<exists>v. scan listing_dup dir_join = Inl (DuplicateUp v) \<or>
        scan listing_dup dir_join = Inl (DuplicateDown v)) \<and>
   distinct (parsed listing_half) \<and> incomplete (parsed listing_half) \<and>
   (\<exists>k. scan listing_half dir_join = Inl (MissingPair k)) \<and>
   distinct (parsed listing_ok) \<and> \<not> incomplete (parsed listing_ok) \<and>
   (\<exists>out. scan listing_ok dir_join = Inr out)"
proof -
  have h: "\<forall>s. dir_join s \<noteq> []" by (simp add: dir_join_def)
  have 1: "\<not> distinct (parsed listing_dup)" by code_simp
  have 2: "distinct (parsed listing_half)" by code_simp
  have 3: "incomplete (parsed listing_half)" by code_simp
  have 4: "distinct (parsed listing_ok)" by code_simp
  have 5: "\<not> incomplete (parsed listing_ok)" by code_simp
  show ?thesis
    using h 1 2 3 4 5 scan_errors[OF h, of listing_dup] scan_errors[OF h, of listing_half]
      scan_errors[OF h, of listing_ok]
    by blast
qed

subsection \<open>Planning\<close>

lemma plan_loop_ok:
  "\<forall>fp\<in>set all. \<not> drifted applied fp \<Longrightarrow>
   plan_loop applied all pending = Inr (pending @ filter (is_pending applied) all)"
  by (induction all arbitrary: pending)
     (auto simp: drifted_def is_pending_def Let_def split: option.splits)

lemma plan_loop_drift:
  "\<exists>fp\<in>set all. drifted applied fp \<Longrightarrow>
   \<exists>fp\<in>set all. \<exists>row. applied (fp_key fp) = Some row \<and> Status row = ''success'' \<and>
      \<not> EqualFold (Row.Checksum row) (FilePair.Checksum fp) \<and>
      plan_loop applied all pending = Inl (ErrDrift (fp_key fp) (Row.Checksum row) (FilePair.Checksum fp))"
proof (induction all arbitrary: pending)
  case Nil
  then show ?case by simp
next
  case (Cons fp all)
  show ?case
  proof (cases "drifted applied fp")
    case True
    then show ?thesis
      by (auto simp: drifted_def fp_key_def Let_def split: option.splits)
  next
    case False
    then have ex: "\<exists>fp\<in>set all. drifted applied fp" using Cons.prems by simp
    have step: "plan_loop applied (fp # all) pending =
        plan_loop applied all (if is_pending applied fp then pending @ [fp] else pending)"
      using False by (auto simp: drifted_def is_pending_def Let_def split: option.splits)
    show ?thesis using Cons.IH[OF ex] unfolding step by auto
  qed
qed

lemma keys_less_sort_key: "keys_less ki kj \<longleftrightarrow> sort_key_of ki < sort_key_of kj"
  by (auto simp: keys_less_def sort_key_of_def Let_def less_prod_def)

lemma keys_less_fun: "keys_less = (\<lambda>x y. sort_key_of x < sort_key_of y)"
  by (intro ext) (rule keys_less_sort_key)

lemma insert_by_insort: "insert_by keys_less x ys = insort_key sort_key_of x ys"
  by (induction ys) (auto simp: keys_less_sort_key)

lemma sort_Slice_sort_key: "sort_Slice keys_less xs = sort_key sort_key_of xs"
  by (induction xs) (auto simp: sort_Slice_def insert_by_insort)

lemma inj_sort_key_of: "inj sort_key_of"
  by (auto simp: inj_def sort_key_of_def)

lemma SortKeys_unique:
  assumes "distinct ks" "set ks = set (map fst m)" "distinct (map fst m)"
    "sorted_wrt keys_less ks"
  shows "ks = SortKeys m"
proof -
  let ?f = sort_key_of
  have d1: "distinct (map ?f ks)" using assms(1) inj_sort_key_of by (simp add: distinct_map inj_on_def inj_def)
  have s1: "sorted (map ?f ks)"
    using assms(4) unfolding keys_less_fun sorted_map
    by (rule sorted_wrt_mono_rel[rotated]) simp
  have d2: "distinct (map ?f (SortKeys m))"
    using assms(3) inj_sort_key_of by (simp add: SortKeys_def sort_Slice_sort_key distinct_map inj_on_def inj_def)
  have s2: "sorted (map ?f (SortKeys m))" by (simp add: SortKeys_def sort_Slice_sort_key)
  have "set (map ?f ks) = set (map ?f (SortKeys m))"
    using assms(2) by (simp add: SortKeys_def sort_Slice_sort_key)
  then have "map ?f ks = map ?f (SortKeys m)" using d1 s1 d2 s2 sorted_distinct_set_unique by blast
  then show ?thesis using inj_sort_key_of by (simp add: inj_map_eq_map)
qed

lemma SortKeys_props:
  assumes "distinct (map fst m)"
  shows "set (SortKeys m) = fst ` set m" "distinct (SortKeys m)" "sorted_wrt keys_less (SortKeys m)"
proof -
  show "set (SortKeys m) = fst ` set m" by (simp add: SortKeys_def sort_Slice_sort_key)
  show d: "distinct (SortKeys m)" using assms by (simp add: SortKeys_def sort_Slice_sort_key)
  have "sorted (map sort_key_of (SortKeys m))" by (simp add: SortKeys_def sort_Slice_sort_key)
  moreover have "distinct (map sort_key_of (SortKeys m))"
    using d inj_sort_key_of by (simp add: distinct_map inj_on_def inj_def)
  ultimately have "sorted_wrt (<) (map sort_key_of (SortKeys m))"
    by (simp add: strict_sorted_iff)
  then show "sorted_wrt keys_less (SortKeys m)"
    by (simp add: sorted_wrt_map keys_less_fun)
qed

lemma SortKeys_perm:
  assumes "distinct (map fst m)" "distinct (map fst m')" "fst ` set m = fst ` set m'"
  shows "SortKeys m' = SortKeys m"
  using SortKeys_unique[of "SortKeys m'" m] SortKeys_props[OF assms(2)] assms by simp

lemma scan_loop_inv:
  assumes "scan_inv full out seen" "scan_loop full es out = Inr out'"
  shows "scan_inv full out' (seen @ parsed es)"
  using assms
proof (induction es arbitrary: out seen)
  case Nil
  then show ?case by (simp add: parsed_Nil)
next
  case (Cons e es)
  show ?case
  proof (cases "fst e \<or> fileRe (snd e) = None")
    case True
    then have "parsed (e # es) = parsed es" "scan_loop full (e # es) out = scan_loop full es out"
      by (auto simp: parsed_Cons scan_loop_Cons)
    then show ?thesis using Cons.IH[OF Cons.prems(1)] Cons.prems(2) by simp
  next
    case False
    then obtain v n t where re: "fileRe (snd e) = Some (v, n, t)" and nd: "\<not> fst e"
      by (cases "fileRe (snd e)") auto
    have pc: "parsed (e # es) = (v, n, t) # parsed es" using re nd by (simp add: parsed_Cons)
    have tt: "t = ''up'' \<or> t = ''down''" using re by (rule fileRe_Some(2))
    have nm: "snd e = file_name v n t" using re by (rule fileRe_Some(1))
    note sp = step_pair_facts[OF Cons.prems(1) re]
    define p' where "p' = (if t = ''up'' then (step_pair out v n)\<lparr>Pair.UpPath := full (snd e)\<rparr>
                           else (step_pair out v n)\<lparr>Pair.DownPath := full (snd e)\<rparr>)"
    define out1 where "out1 = AList.update (v @ '':'' @ n) p' (step_out out v n)"
    have step: "scan_loop full es out1 = Inr out'"
      using Cons.prems(2) tt nd re unfolding out1_def p'_def
      by (auto simp: scan_loop_Cons split: if_splits)
    have d: "distinct (map fst out)" using Cons.prems(1) unfolding scan_inv_def by simp
    have inv': "scan_inv full out1 (seen @ [(v, n, t)])"
    proof (rule scan_inv_update[OF Cons.prems(1) re])
      show "Pair.Version p' = v" "Pair.Name p' = n" using sp by (simp_all add: p'_def)
      show "Pair.UpPath p' = (if (v, n, ''up'') \<in> set (seen @ [(v, n, t)]) then full (file_name v n ''up'') else '''')"
        using tt sp nm by (auto simp: p'_def)
      show "Pair.DownPath p' = (if (v, n, ''down'') \<in> set (seen @ [(v, n, t)]) then full (file_name v n ''down'') else '''')"
        using tt sp nm by (auto simp: p'_def)
      show "distinct (map fst out1)" unfolding out1_def using d by (rule step_out_facts(1))
      show "map_of out1 = (map_of out)(v @ '':'' @ n \<mapsto> p')" unfolding out1_def using d by (rule step_out_facts(2))
    qed
    have eq: "(seen @ [(v, n, t)]) @ parsed es = seen @ parsed (e # es)" using pc by simp
    show ?thesis using Cons.IH[OF inv' step] unfolding eq .
  qed
qed

lemma scan_Inr_inv:
  assumes "scan es full = Inr pairs"
  shows "scan_inv full pairs (parsed es)"
proof -
  from assms obtain out where o: "scan_loop full es [] = Inr out" and v: "validate out = Inr pairs"
    by (auto simp: scan_def split: sum.splits)
  have "pairs = out" using v by (auto simp: validate_def split: option.splits prod.splits)
  then show ?thesis using scan_loop_inv[OF scan_inv_empty o] by simp
qed

lemma scan_Inr_complete:
  assumes full: "\<forall>s. full s \<noteq> []" and ok: "scan es full = Inr pairs"
  shows "distinct (parsed es)" "\<not> incomplete (parsed es)"
proof -
  have e: "(\<not> distinct (parsed es) \<longrightarrow>
            (\<exists>v. scan es full = Inl (DuplicateUp v) \<or> scan es full = Inl (DuplicateDown v))) \<and>
         (distinct (parsed es) \<and> incomplete (parsed es) \<longrightarrow> (\<exists>k. scan es full = Inl (MissingPair k)))"
  proof -
    have c: "if distinct (parsed es)
         then (\<exists>out'. scan_loop full es [] = Inr out' \<and> scan_inv full out' (parsed es))
         else (\<exists>v. scan_loop full es [] = Inl (DuplicateUp v) \<or> scan_loop full es [] = Inl (DuplicateDown v))"
      using scan_loop_char[OF full scan_inv_empty, of es] unfolding append_Nil by simp
    have 1: "\<not> distinct (parsed es) \<longrightarrow>
            (\<exists>v. scan es full = Inl (DuplicateUp v) \<or> scan es full = Inl (DuplicateDown v))"
      using c by (auto simp: scan_def)
    have 2: "\<exists>k. scan es full = Inl (MissingPair k)" if dd: "distinct (parsed es)" and ii: "incomplete (parsed es)"
    proof -
      obtain out where o: "scan_loop full es [] = Inr out" "scan_inv full out (parsed es)"
        using c dd by auto
      show ?thesis using validate_char[OF full o(2)] ii o(1) by (simp add: scan_def)
    qed
    show ?thesis using 1 2 by blast
  qed
  show "distinct (parsed es)" using e ok by auto
  then show "\<not> incomplete (parsed es)" using e ok by auto
qed

lemma scan_complete_Inr:
  assumes full: "\<forall>s. full s \<noteq> []" and "distinct (parsed es)" "\<not> incomplete (parsed es)"
  shows "\<exists>pairs. scan es full = Inr pairs"
proof -
  obtain out where o: "scan_loop full es [] = Inr out" "scan_inv full out (parsed es)"
    using scan_loop_char[OF full scan_inv_empty, of es] assms(2) unfolding append_Nil by auto
  show ?thesis using validate_char[OF full o(2)] assms(3) o(1) by (simp add: scan_def)
qed

lemma scan_inv_map_eq:
  assumes a: "scan_inv full out seen" and b: "scan_inv full out' seen'" and s: "set seen = set seen'"
  shows "map_of out = map_of out'"
proof -
  have one: "map_of o2 k = Some p"
    if i1: "scan_inv full o1 s1" and i2: "scan_inv full o2 s2" and ss: "set s1 = set s2"
      and kp: "map_of o1 k = Some p" for o1 o2 s1 s2 k p
  proof -
    have gp: "good_pair full s1 k p" using i1 kp unfolding scan_inv_def by blast
    then obtain t where t: "(Pair.Version p, Pair.Name p, t) \<in> set s2"
      using ss unfolding good_pair_def by blast
    have k: "k = Pair.Version p @ '':'' @ Pair.Name p" using gp unfolding good_pair_def by simp
    have "map_of o2 k \<noteq> None" using i2 t k unfolding scan_inv_def by blast
    then obtain q where q: "map_of o2 k = Some q" by blast
    then have gq: "good_pair full s2 k q" using i2 unfolding scan_inv_def by blast
    have vn: "Pair.Version p = Pair.Version q \<and> Pair.Name p = Pair.Name q"
      using key_inj[of "Pair.Version p" "Pair.Version q" "Pair.Name p" "Pair.Name q"] gp gq
      unfolding good_pair_def by auto
    have "p = q" using gp gq vn ss unfolding good_pair_def by (intro Pair.equality) auto
    then show ?thesis using q by simp
  qed
  show ?thesis
  proof (rule ext)
    fix k
    show "map_of out k = map_of out' k"
    proof (cases "map_of out k")
      case None
      show ?thesis
      proof (cases "map_of out' k")
        case None
        then show ?thesis using \<open>map_of out k = None\<close> by simp
      next
        case (Some q)
        then show ?thesis using one[OF b a s[symmetric] Some] by simp
      qed
    next
      case (Some p)
      then show ?thesis using one[OF a b s Some] by simp
    qed
  qed
qed

lemma parsed_mset:
  assumes "mset es' = mset es"
  shows "mset (parsed es') = mset (parsed es)"
proof -
  have "mset (map f (filter P es')) = mset (map f (filter P es))" for f :: "DirEntry \<Rightarrow> (string \<times> string \<times> string)" and P
    using assms by (metis mset_filter mset_map)
  then show ?thesis unfolding parsed_def List.map_filter_def .
qed

lemma scan_perm:
  assumes full: "\<forall>s. full s \<noteq> []" and ok: "scan es full = Inr pairs" and perm: "mset es' = mset es"
  shows "\<exists>pairs'. scan es' full = Inr pairs' \<and> map_of pairs' = map_of pairs \<and> SortKeys pairs' = SortKeys pairs"
proof -
  have pm: "mset (parsed es') = mset (parsed es)" using perm by (rule parsed_mset)
  have d: "distinct (parsed es)" and c: "\<not> incomplete (parsed es)"
    using scan_Inr_complete[OF full ok] by simp_all
  have st: "set (parsed es') = set (parsed es)" using pm by (rule mset_eq_setD)
  have d': "distinct (parsed es')" using d pm by (metis distinct_count_atmost_1 set_mset_mset)
  have c': "\<not> incomplete (parsed es')" using c st by (simp add: incomplete_def)
  obtain pairs' where p': "scan es' full = Inr pairs'" using scan_complete_Inr[OF full d' c'] by blast
  have i: "scan_inv full pairs (parsed es)" using ok by (rule scan_Inr_inv)
  have i': "scan_inv full pairs' (parsed es')" using p' by (rule scan_Inr_inv)
  have m: "map_of pairs' = map_of pairs" using scan_inv_map_eq[OF i' i st] .
  have dk: "distinct (map fst pairs)" "distinct (map fst pairs')" using i i' unfolding scan_inv_def by simp_all
  have "dom (map_of pairs') = dom (map_of pairs)" using m by simp
  then have "fst ` set pairs = fst ` set pairs'" by (simp add: dom_map_of_conv_image_fst)
  then have "SortKeys pairs' = SortKeys pairs" using SortKeys_perm[OF dk] by simp
  then show ?thesis using p' m by blast
qed

lemma read_pairs_src:
  "ReadFile src' = ReadFile src \<Longrightarrow> read_pairs env src' m ks acc = read_pairs env src m ks acc"
  by (induction ks arbitrary: acc) (auto split: option.splits)

lemma read_pairs_keys:
  assumes "\<forall>k p. m k = Some p \<longrightarrow> k = Pair.Version p @ '':'' @ Pair.Name p \<and> CHR '':'' \<notin> set (Pair.Version p)"
    and "read_pairs env src m ks acc = Inr all"
  shows "map fp_key all = map fp_key acc @ ks \<and>
         (\<forall>fp\<in>set all. fp \<in> set acc \<or> CHR '':'' \<notin> set (FilePair.Version fp))"
  using assms(2)
proof (induction ks arbitrary: acc)
  case Nil
  then show ?case by simp
next
  case (Cons k ks)
  from Cons.prems obtain p upb downb where p: "m k = Some p"
    and rec: "read_pairs env src m ks
       (acc @ [\<lparr>FilePair.Version = Pair.Version p, FilePair.Name = Pair.Name p,
                FilePair.UpPath = Pair.UpPath p, FilePair.DownPath = Pair.DownPath p,
                UpBytes = upb, DownBytes = downb, FilePair.Checksum = SHA256 env upb\<rparr>]) = Inr all"
    by (auto split: option.splits)
  have k: "k = Pair.Version p @ '':'' @ Pair.Name p" "CHR '':'' \<notin> set (Pair.Version p)"
    using assms(1) p by blast+
  show ?case using Cons.IH[OF rec] k by (auto simp: fp_key_def)
qed

lemma append_less_cancel: "(xs @ ys < xs @ zs) = (ys < (zs :: 'a :: linorder list))"
  by (induction xs) auto

lemma version_of_key: "CHR '':'' \<notin> set v \<Longrightarrow> version_of (v @ CHR '':'' # n) = v"
  by (simp add: version_of_def takeWhile_sep)

lemma keys_less_pair_less:
  assumes "CHR '':'' \<notin> set (FilePair.Version a)" "CHR '':'' \<notin> set (FilePair.Version b)"
  shows "keys_less (fp_key a) (fp_key b) = pair_less a b"
proof -
  have va: "version_of (fp_key a) = FilePair.Version a" and vb: "version_of (fp_key b) = FilePair.Version b"
    using assms by (simp_all add: fp_key_def version_of_key)
  show ?thesis
  proof (cases "FilePair.Version a = FilePair.Version b")
    case True
    have "(fp_key a < fp_key b) = (FilePair.Name a < FilePair.Name b)"
      using append_less_cancel[of "FilePair.Version a @ '':''" "FilePair.Name a" "FilePair.Name b"] True
      by (simp add: fp_key_def)
    then show ?thesis using True va vb by (simp add: keys_less_def pair_less_def Let_def)
  next
    case False
    then show ?thesis using va vb by (simp add: keys_less_def pair_less_def Let_def)
  qed
qed

lemma scan_inv_keys:
  assumes "scan_inv full pairs seen"
  shows "\<forall>k p. map_of pairs k = Some p \<longrightarrow>
           k = Pair.Version p @ '':'' @ Pair.Name p \<and> CHR '':'' \<notin> set (Pair.Version p)"
  using assms unfolding scan_inv_def good_pair_def by blast

lemma discover_sorted:
  assumes "discover env src = Inr all"
  shows "sorted_wrt pair_less all" "distinct (map fp_key all)"
proof -
  from assms obtain es pairs where es: "ReadDir src = Some es"
    and sc: "scan es (Join src) = Inr pairs"
    and rp: "read_pairs env src (map_of pairs) (SortKeys pairs) [] = Inr all"
    by (auto simp: discover_def split: option.splits sum.splits)
  have inv: "scan_inv (Join src) pairs (parsed es)" using sc by (rule scan_Inr_inv)
  have d: "distinct (map fst pairs)" using inv unfolding scan_inv_def by simp
  have ks: "map fp_key all = SortKeys pairs" and nc: "\<forall>fp\<in>set all. CHR '':'' \<notin> set (FilePair.Version fp)"
    using read_pairs_keys[OF scan_inv_keys[OF inv] rp] by simp_all
  show "distinct (map fp_key all)" using ks SortKeys_props(2)[OF d] by simp
  have "sorted_wrt keys_less (map fp_key all)" using ks SortKeys_props(3)[OF d] by simp
  then have "sorted_wrt (\<lambda>a b. keys_less (fp_key a) (fp_key b)) all" by (simp add: sorted_wrt_map)
  then show "sorted_wrt pair_less all"
    by (rule sorted_wrt_mono_rel[rotated]) (use nc keys_less_pair_less in auto)
qed

lemma discover_perm:
  assumes full: "\<forall>s. Join src s \<noteq> []" and ok: "discover env src = Inr all"
    and j: "Join src' = Join src" and r: "ReadFile src' = ReadFile src"
    and es: "ReadDir src = Some es" "ReadDir src' = Some es'" "mset es' = mset es"
  shows "discover env src' = Inr all"
proof -
  from ok es(1) obtain pairs where sc: "scan es (Join src) = Inr pairs"
    and rp: "read_pairs env src (map_of pairs) (SortKeys pairs) [] = Inr all"
    by (auto simp: discover_def split: option.splits sum.splits)
  obtain pairs' where p': "scan es' (Join src) = Inr pairs'" "map_of pairs' = map_of pairs"
     "SortKeys pairs' = SortKeys pairs"
    using scan_perm[OF full sc es(3)] by blast
  show ?thesis using p' rp es(2) j read_pairs_src[OF r] by (simp add: discover_def)
qed

lemma DiscoverAndPlan_Inr:
  assumes "DiscoverAndPlan env src w = (Inr plan, w')"
  shows "discover env src = Inr (All_pairs plan)"
    "GetAll env w = (Inr (Applied plan), w')"
    "\<forall>fp\<in>set (All_pairs plan). \<not> drifted (Applied plan) fp"
    "Pending plan = filter (is_pending (Applied plan)) (All_pairs plan)"
proof -
  from assms obtain all applied pending where a: "discover env src = Inr all"
    and g: "GetAll env w = (Inr applied, w')" and pl: "plan_loop applied all [] = Inr pending"
    and p: "plan = \<lparr>Pending = pending, Applied = applied, All_pairs = all\<rparr>"
    by (auto simp: DiscoverAndPlan_def split: sum.splits prod.splits)
  have nd: "\<forall>fp\<in>set all. \<not> drifted applied fp"
    using plan_loop_drift[of all applied "[]"] pl by auto
  show "discover env src = Inr (All_pairs plan)" using a p by simp
  show "GetAll env w = (Inr (Applied plan), w')" using g p by simp
  show "\<forall>fp\<in>set (All_pairs plan). \<not> drifted (Applied plan) fp" using nd p by simp
  show "Pending plan = filter (is_pending (Applied plan)) (All_pairs plan)"
    using plan_loop_ok[OF nd, of "[]"] pl p by simp
qed

lemma GetAll_Inr: "GetAll env w = (Inr applied, w') \<Longrightarrow> applied = rows_map (ledger w) \<and> ledger w' = ledger w"
  by (auto simp: GetAll_def call_def Let_def split: if_splits)

text \<open>
  C1. In every plan that \<open>DiscoverAndPlan\<close> returns, \<open>Pending\<close> is made of exactly those
  pairs of \<open>All\<close> whose key has no entry in the ledger map or an entry with status
  \<open>failed\<close>; a pair with a \<open>success\<close> entry and a matching fingerprint is not pending.
  The ledger map is the one read from the table. The classification of a pair is a
  function of its own entry: a second plan of the same source, over any other ledger that
  agrees on the pair's key, classifies the pair the same way, whatever the other entries
  and their versions.
\<close>

theorem pending_classification:
  assumes "DiscoverAndPlan env src w = (Inr plan, w')"
  shows "Pending plan = filter (is_pending (Applied plan)) (All_pairs plan) \<and>
    Applied plan = rows_map (ledger w) \<and>
    (\<forall>fp\<in>set (All_pairs plan).
       fp \<in> set (Pending plan) \<longleftrightarrow>
         (Applied plan (fp_key fp) = None \<or>
          (\<exists>row. Applied plan (fp_key fp) = Some row \<and> Status row = ''failed''))) \<and>
    (\<forall>fp\<in>set (All_pairs plan). \<forall>row.
       Applied plan (fp_key fp) = Some row \<and> Status row = ''success'' \<and>
       EqualFold (Row.Checksum row) (FilePair.Checksum fp) \<longrightarrow> fp \<notin> set (Pending plan)) \<and>
    (\<forall>w2 plan2 w2'. DiscoverAndPlan env src w2 = (Inr plan2, w2') \<longrightarrow>
       All_pairs plan2 = All_pairs plan \<and>
       (\<forall>fp\<in>set (All_pairs plan). Applied plan2 (fp_key fp) = Applied plan (fp_key fp) \<longrightarrow>
          (fp \<in> set (Pending plan2) \<longleftrightarrow> fp \<in> set (Pending plan))))"
proof -
  note f = DiscoverAndPlan_Inr[OF assms]
  have cls: "fp \<in> set (Pending p) \<longleftrightarrow>
         (Applied p (fp_key fp) = None \<or> (\<exists>row. Applied p (fp_key fp) = Some row \<and> Status row = ''failed''))"
    if "Pending p = filter (is_pending (Applied p)) (All_pairs p)" "fp \<in> set (All_pairs p)" for p fp
    using that by (auto simp: is_pending_def fp_key_def split: option.splits)
  have 1: "Pending plan = filter (is_pending (Applied plan)) (All_pairs plan)" by (rule f(4))
  have 2: "Applied plan = rows_map (ledger w)" using GetAll_Inr[OF f(2)] by simp
  have 3: "\<forall>fp\<in>set (All_pairs plan).
       fp \<in> set (Pending plan) \<longleftrightarrow>
         (Applied plan (fp_key fp) = None \<or>
          (\<exists>row. Applied plan (fp_key fp) = Some row \<and> Status row = ''failed''))"
    using cls[OF 1] by blast
  have 4: "\<forall>fp\<in>set (All_pairs plan). \<forall>row.
       Applied plan (fp_key fp) = Some row \<and> Status row = ''success'' \<and>
       EqualFold (Row.Checksum row) (FilePair.Checksum fp) \<longrightarrow> fp \<notin> set (Pending plan)"
    using 3 by auto
  have 5: "All_pairs plan2 = All_pairs plan \<and>
       (\<forall>fp\<in>set (All_pairs plan). Applied plan2 (fp_key fp) = Applied plan (fp_key fp) \<longrightarrow>
          (fp \<in> set (Pending plan2) \<longleftrightarrow> fp \<in> set (Pending plan)))"
    if h: "DiscoverAndPlan env src w2 = (Inr plan2, w2')" for w2 plan2 w2'
  proof -
    note g = DiscoverAndPlan_Inr[OF h]
    have a: "All_pairs plan2 = All_pairs plan" using g(1) f(1) by simp
    show ?thesis using a cls[OF g(4)] 3 by auto
  qed
  show ?thesis using 1 2 3 4 5 by blast
qed

text \<open>
  C2. Once discovery and the ledger read have succeeded: if some discovered pair has a
  \<open>success\<close> entry whose fingerprint differs from the pair's under \<open>EqualFold\<close>, the
  result is the error \<open>ErrDrift\<close> for such a pair, and no plan; if no pair has one
  (fingerprints equal up to case), the result is a plan.
\<close>

theorem drift_aborts_planning:
  assumes "discover env src = Inr all" and "GetAll env w = (Inr applied, w')"
  shows "((\<exists>fp\<in>set all. drifted applied fp) \<longrightarrow>
           (\<exists>fp\<in>set all. \<exists>row. applied (fp_key fp) = Some row \<and> Status row = ''success'' \<and>
              \<not> EqualFold (Row.Checksum row) (FilePair.Checksum fp) \<and>
              DiscoverAndPlan env src w =
                (Inl (ErrDrift (fp_key fp) (Row.Checksum row) (FilePair.Checksum fp)), w'))) \<and>
         ((\<forall>fp\<in>set all. \<not> drifted applied fp) \<longrightarrow>
           DiscoverAndPlan env src w =
             (Inr \<lparr>Pending = filter (is_pending applied) all, Applied = applied, All_pairs = all\<rparr>, w'))"
proof (intro conjI impI)
  assume "\<exists>fp\<in>set all. drifted applied fp"
  from plan_loop_drift[OF this, of "[]"] obtain fp row where
    "fp \<in> set all" "applied (fp_key fp) = Some row" "Status row = ''success''"
    "\<not> EqualFold (Row.Checksum row) (FilePair.Checksum fp)"
    "plan_loop applied all [] = Inl (ErrDrift (fp_key fp) (Row.Checksum row) (FilePair.Checksum fp))"
    by blast
  then show "\<exists>fp\<in>set all. \<exists>row. applied (fp_key fp) = Some row \<and> Status row = ''success'' \<and>
              \<not> EqualFold (Row.Checksum row) (FilePair.Checksum fp) \<and>
              DiscoverAndPlan env src w =
                (Inl (ErrDrift (fp_key fp) (Row.Checksum row) (FilePair.Checksum fp)), w')"
    using assms by (auto simp: DiscoverAndPlan_def)
next
  assume "\<forall>fp\<in>set all. \<not> drifted applied fp"
  from plan_loop_ok[OF this, of "[]"] show "DiscoverAndPlan env src w =
             (Inr \<lparr>Pending = filter (is_pending applied) all, Applied = applied, All_pairs = all\<rparr>, w')"
    using assms by (simp add: DiscoverAndPlan_def)
qed

lemma map_upd_add: "m(k \<mapsto> v) ++ g = m ++ ([k \<mapsto> v] ++ g)"
proof -
  have "m(k \<mapsto> v) = m ++ [k \<mapsto> v]" by simp
  then show ?thesis by (simp only: map_add_assoc)
qed

lemma rows_map_conv: "fold (\<lambda>r out. out(keyOf (Row.Version r) (Row.Name r) \<mapsto> r)) rows m
    = m ++ map_of (rev (map (\<lambda>r. (keyOf (Row.Version r) (Row.Name r), r)) rows))"
proof (induction rows arbitrary: m)
  case Nil
  then show ?case by simp
next
  case (Cons r rows)
  let ?k = "\<lambda>r. (keyOf (Row.Version r) (Row.Name r), r)"
  have a: "map_of (rev (map ?k (r # rows))) = [keyOf (Row.Version r) (Row.Name r) \<mapsto> r] ++ map_of (rev (map ?k rows))"
    by simp
  have "fold (\<lambda>r out. out(keyOf (Row.Version r) (Row.Name r) \<mapsto> r)) (r # rows) m
      = fold (\<lambda>r out. out(keyOf (Row.Version r) (Row.Name r) \<mapsto> r)) rows
          (m(keyOf (Row.Version r) (Row.Name r) \<mapsto> r))"
    by (simp only: fold_Cons o_apply)
  also have "\<dots> = m(keyOf (Row.Version r) (Row.Name r) \<mapsto> r) ++ map_of (rev (map ?k rows))"
    by (rule Cons.IH)
  also have "\<dots> = m ++ map_of (rev (map ?k (r # rows)))"
    unfolding a by (rule map_upd_add)
  finally show ?case .
qed

lemma rows_map_perm:
  assumes "mset rows' = mset rows" "distinct (map (\<lambda>r. keyOf (Row.Version r) (Row.Name r)) rows)"
  shows "rows_map rows' = rows_map rows"
proof -
  let ?k = "\<lambda>r. (keyOf (Row.Version r) (Row.Name r), r)"
  let ?f = "\<lambda>r. keyOf (Row.Version r) (Row.Name r)"
  have e: "map fst (rev (map ?k xs)) = rev (map ?f xs)" for xs :: "Row list"
    by (simp add: rev_map o_def)
  have d: "distinct (map fst (rev (map ?k rows)))" unfolding e using assms(2) by simp
  have "mset (map ?f rows') = mset (map ?f rows)"
    using assms(1) by simp
  then have "distinct (map ?f rows') = distinct (map ?f rows)"
    by (rule mset_eq_imp_distinct_iff)
  then have d': "distinct (map fst (rev (map ?k rows')))" unfolding e using assms(2) by simp
  have "set rows' = set rows" using assms(1) by (rule mset_eq_setD)
  then have "set (rev (map ?k rows')) = set (rev (map ?k rows))" by simp
  then have "map_of (rev (map ?k rows')) = map_of (rev (map ?k rows))"
    using map_of_inject_set[OF d' d] by blast
  then show ?thesis unfolding rows_map_def rows_map_conv by (rule arg_cong)
qed

lemma GetAll_fst:
  assumes "rows_map (ledger w2) = rows_map (ledger w)" "trace w2 = trace w"
  shows "fst (GetAll env w2) = fst (GetAll env w)"
  using assms by (simp add: GetAll_def call_def Let_def)

lemma DiscoverAndPlan_fst:
  assumes "fst (GetAll env w2) = fst (GetAll env w)"
  shows "fst (DiscoverAndPlan env src w2) = fst (DiscoverAndPlan env src w)"
proof (cases "discover env src")
  case (Inl e)
  then show ?thesis by (simp add: DiscoverAndPlan_def)
next
  case (Inr all)
  obtain r w1 where g: "GetAll env w = (r, w1)" by (cases "GetAll env w")
  obtain r2 w3 where g2: "GetAll env w2 = (r2, w3)" by (cases "GetAll env w2")
  have "r2 = r" using assms g g2 by simp
  then show ?thesis using Inr g g2
    by (cases r) (simp_all add: DiscoverAndPlan_def split: sum.splits)
qed

text \<open>
  C8. In every plan that \<open>DiscoverAndPlan\<close> returns, \<open>All\<close> is strictly sorted by
  version, then name (as byte strings), \<open>Pending\<close> is a subsequence of \<open>All\<close> and sorted
  the same way. The plan does not depend on the order of the directory listing (for a
  \<open>Join\<close> that returns no empty path, as \<open>filepath.Join\<close> does on a file name), nor on
  the order in which the table yields its rows (their keys being distinct).
\<close>

theorem plan_order:
  assumes "DiscoverAndPlan env src w = (Inr plan, w')"
  shows "sorted_wrt pair_less (All_pairs plan) \<and>
    subseq (Pending plan) (All_pairs plan) \<and>
    sorted_wrt pair_less (Pending plan) \<and>
    (\<forall>src' es es'. (\<forall>s. Join src s \<noteq> []) \<and> Join src' = Join src \<and> ReadFile src' = ReadFile src \<and>
        ReadDir src = Some es \<and> ReadDir src' = Some es' \<and> mset es' = mset es \<longrightarrow>
        DiscoverAndPlan env src' w = (Inr plan, w')) \<and>
    (\<forall>w2. mset (ledger w2) = mset (ledger w) \<and>
        distinct (map (\<lambda>r. keyOf (Row.Version r) (Row.Name r)) (ledger w)) \<and>
        trace w2 = trace w \<longrightarrow>
        fst (DiscoverAndPlan env src w2) = Inr plan)"
proof -
  note f = DiscoverAndPlan_Inr[OF assms]
  have 1: "sorted_wrt pair_less (All_pairs plan)" using discover_sorted(1)[OF f(1)] .
  have 2: "subseq (Pending plan) (All_pairs plan)" unfolding f(4) by (rule subseq_filter_left)
  have 3: "sorted_wrt pair_less (Pending plan)" unfolding f(4) using 1 by (rule sorted_wrt_filter)
  have 4: "DiscoverAndPlan env src' w = (Inr plan, w')"
    if h: "(\<forall>s. Join src s \<noteq> []) \<and> Join src' = Join src \<and> ReadFile src' = ReadFile src \<and>
        ReadDir src = Some es \<and> ReadDir src' = Some es' \<and> mset es' = mset es" for src' es es'
  proof -
    have "discover env src' = Inr (All_pairs plan)"
      by (rule discover_perm[OF _ f(1), of src' es es']) (use h in simp_all)
    then have "discover env src' = discover env src" using f(1) by simp
    then have "DiscoverAndPlan env src' w = DiscoverAndPlan env src w"
      by (simp only: DiscoverAndPlan_def)
    then show ?thesis using assms by simp
  qed
  have 5: "fst (DiscoverAndPlan env src w2) = Inr plan"
    if h: "mset (ledger w2) = mset (ledger w) \<and>
        distinct (map (\<lambda>r. keyOf (Row.Version r) (Row.Name r)) (ledger w)) \<and> trace w2 = trace w" for w2
  proof -
    have r: "rows_map (ledger w2) = rows_map (ledger w)"
      by (rule rows_map_perm) (use h in simp_all)
    have "fst (DiscoverAndPlan env src w2) = fst (DiscoverAndPlan env src w)"
      by (rule DiscoverAndPlan_fst[OF GetAll_fst[OF r]]) (use h in simp)
    then show ?thesis using assms by simp
  qed
  show ?thesis using 1 2 3 4 5 by blast
qed

subsection \<open>Planning on concrete inputs\<close>

lemma discover0: "discover env0 src0 = Inr [fp_a, fp_b]"
  by code_simp

lemma GetAll0: "GetAll env0 (world0 rows) = (Inr (rows_map rows), logged OpGetAll (world0 rows))"
  by (simp add: GetAll_def call_def env0_def world0_def logged_def)

lemma plan_loop_b: "plan_loop (rows_map ledger_b) [fp_a, fp_b] [] = Inr [fp_a]"
  by code_simp

lemma plan_loop_retry: "plan_loop (rows_map ledger_retry) [fp_a, fp_b] [] = Inr [fp_a]"
  by code_simp

lemma plan_b:
  "DiscoverAndPlan env0 src0 (world0 ledger_b) = (Inr (plan_of ledger_b), logged OpGetAll (world0 ledger_b))"
  by (simp add: DiscoverAndPlan_def discover0 GetAll0 plan_loop_b plan_of_def del: plan_loop.simps)

lemma plan_retry:
  "DiscoverAndPlan env0 src0 (world0 ledger_retry) =
     (Inr (plan_of ledger_retry), logged OpGetAll (world0 ledger_retry))"
  by (simp add: DiscoverAndPlan_def discover0 GetAll0 plan_loop_retry plan_of_def del: plan_loop.simps)

theorem pending_classification_witness:
  "DiscoverAndPlan env0 src0 (world0 ledger_b) =
     (Inr (plan_of ledger_b), logged OpGetAll (world0 ledger_b)) \<and>
   Pending (plan_of ledger_b) = filter (is_pending (Applied (plan_of ledger_b))) (All_pairs (plan_of ledger_b)) \<and>
   Pending (plan_of ledger_b) = [fp_a] \<and>
   Applied (plan_of ledger_b) (fp_key fp_a) = None \<and>
   Applied (plan_of ledger_b) (fp_key fp_b) = Some (row0 ''2'' ''b'' ''CREATE B'' ''success'' 1) \<and>
   DiscoverAndPlan env0 src0 (world0 ledger_retry) =
     (Inr (plan_of ledger_retry), logged OpGetAll (world0 ledger_retry)) \<and>
   Applied (plan_of ledger_retry) (fp_key fp_a) = Some (row0 ''1'' ''a'' ''create x'' ''failed'' 1) \<and>
   fp_a \<in> set (Pending (plan_of ledger_retry))"
proof -
  have a: "Applied (plan_of ledger_b) (fp_key fp_a) = None" by code_simp
  have b: "Applied (plan_of ledger_b) (fp_key fp_b) = Some (row0 ''2'' ''b'' ''CREATE B'' ''success'' 1)"
    by code_simp
  have c: "Applied (plan_of ledger_retry) (fp_key fp_a) = Some (row0 ''1'' ''a'' ''create x'' ''failed'' 1)"
    by code_simp
  have s: "Status (row0 ''1'' ''a'' ''create x'' ''failed'' 1) = ''failed''" by (simp add: row0_def)
  have m: "fp_a \<in> set (All_pairs (plan_of ledger_retry))" by (simp add: plan_of_def)
  have p: "Pending (plan_of ledger_b) = [fp_a]" by (simp add: plan_of_def)
  have 1: "Pending (plan_of ledger_b) = filter (is_pending (Applied (plan_of ledger_b))) (All_pairs (plan_of ledger_b))"
    using pending_classification[OF plan_b] by (rule conjunct1)
  have "\<forall>fp\<in>set (All_pairs (plan_of ledger_retry)).
       fp \<in> set (Pending (plan_of ledger_retry)) \<longleftrightarrow>
         (Applied (plan_of ledger_retry) (fp_key fp) = None \<or>
          (\<exists>row. Applied (plan_of ledger_retry) (fp_key fp) = Some row \<and> Status row = ''failed''))"
    using pending_classification[OF plan_retry] by (elim conjE)
  then have 2: "fp_a \<in> set (Pending (plan_of ledger_retry))" using m c s by blast
  show ?thesis using plan_b 1 p a b plan_retry c 2 by (intro conjI)
qed

lemma drift_ex: "\<exists>fp\<in>set [fp_a, fp_b]. drifted (rows_map ledger_drift) fp"
  by code_simp

lemma drift_none: "\<not> (\<exists>fp\<in>set [fp_a, fp_b]. drifted (rows_map ledger_b) fp)"
  by code_simp

theorem drift_aborts_planning_witness:
  "discover env0 src0 = Inr [fp_a, fp_b] \<and>
   GetAll env0 (world0 ledger_drift) = (Inr (rows_map ledger_drift), logged OpGetAll (world0 ledger_drift)) \<and>
   (\<exists>fp\<in>set [fp_a, fp_b]. drifted (rows_map ledger_drift) fp) \<and>
   DiscoverAndPlan env0 src0 (world0 ledger_drift) =
     (Inl (ErrDrift ''1:a'' ''create x'' ''create a''), logged OpGetAll (world0 ledger_drift)) \<and>
   GetAll env0 (world0 ledger_b) = (Inr (rows_map ledger_b), logged OpGetAll (world0 ledger_b)) \<and>
   \<not> (\<exists>fp\<in>set [fp_a, fp_b]. drifted (rows_map ledger_b) fp) \<and>
   EqualFold ''CREATE B'' ''create b'' \<and>
   DiscoverAndPlan env0 src0 (world0 ledger_b) =
     (Inr \<lparr>Pending = filter (is_pending (rows_map ledger_b)) [fp_a, fp_b],
           Applied = rows_map ledger_b, All_pairs = [fp_a, fp_b]\<rparr>, logged OpGetAll (world0 ledger_b))"
proof -
  have e: "EqualFold ''CREATE B'' ''create b''" by code_simp
  have kb: "rows_map ledger_drift (fp_key fp_b) = None" by code_simp
  have ka: "fp_key fp_a = ''1:a''" by code_simp
  have ra: "rows_map ledger_drift ''1:a'' = Some (row0 ''1'' ''a'' ''create x'' ''success'' 1)" by code_simp
  have ca: "FilePair.Checksum fp_a = ''create a''" by (simp add: fp_a_def)
  have cr: "Row.Checksum (row0 ''1'' ''a'' ''create x'' ''success'' 1) = ''create x''" by (simp add: row0_def)
  note t1 = drift_aborts_planning[OF discover0 GetAll0, of ledger_drift, THEN conjunct1, THEN mp, OF drift_ex]
  then obtain fp row where fp: "fp \<in> set [fp_a, fp_b]" and r: "rows_map ledger_drift (fp_key fp) = Some row"
    and res: "DiscoverAndPlan env0 src0 (world0 ledger_drift) =
                (Inl (ErrDrift (fp_key fp) (Row.Checksum row) (FilePair.Checksum fp)),
                 logged OpGetAll (world0 ledger_drift))"
    by blast
  have f: "fp = fp_a" using fp r kb by auto
  have rw: "row = row0 ''1'' ''a'' ''create x'' ''success'' 1" using r ra unfolding f ka by simp
  have d: "DiscoverAndPlan env0 src0 (world0 ledger_drift) =
     (Inl (ErrDrift ''1:a'' ''create x'' ''create a''), logged OpGetAll (world0 ledger_drift))"
    using res unfolding f rw ka ca cr .
  have n: "\<forall>fp\<in>set [fp_a, fp_b]. \<not> drifted (rows_map ledger_b) fp" using drift_none by blast
  note t2 = drift_aborts_planning[OF discover0 GetAll0, of ledger_b, THEN conjunct2, THEN mp, OF n]
  show ?thesis using discover0 GetAll0[of ledger_drift] drift_ex d GetAll0[of ledger_b] drift_none e t2
    by (intro conjI)
qed

theorem plan_order_witness:
  "DiscoverAndPlan env0 src0 (world0 ledger_retry) =
     (Inr (plan_of ledger_retry), logged OpGetAll (world0 ledger_retry)) \<and>
   sorted_wrt pair_less [fp_a, fp_b] \<and>
   subseq [fp_a] [fp_a, fp_b] \<and>
   (\<forall>s. Join src0 s \<noteq> []) \<and>
   mset (rev listing_ok) = mset listing_ok \<and>
   DiscoverAndPlan env0 src0_rev (world0 ledger_retry) =
     (Inr (plan_of ledger_retry), logged OpGetAll (world0 ledger_retry)) \<and>
   distinct (map (\<lambda>r. keyOf (Row.Version r) (Row.Name r)) ledger_retry) \<and>
   fst (DiscoverAndPlan env0 src0 (world0 (rev ledger_retry))) = Inr (plan_of ledger_retry)"
proof -
  note p = plan_order[OF plan_retry]
  have j: "\<forall>s. Join src0 s \<noteq> []" by (simp add: src0_def dir_join_def)
  have m: "mset (rev listing_ok) = mset listing_ok" by simp
  have d: "distinct (map (\<lambda>r. keyOf (Row.Version r) (Row.Name r)) ledger_retry)" by code_simp
  have a: "All_pairs (plan_of ledger_retry) = [fp_a, fp_b]" "Pending (plan_of ledger_retry) = [fp_a]"
    by (simp_all add: plan_of_def)
  have 1: "sorted_wrt pair_less [fp_a, fp_b]"
    using p[THEN conjunct1] unfolding a .
  have sb: "subseq [fp_a] [fp_a, fp_b]"
    using p[THEN conjunct2, THEN conjunct1] unfolding a .
  have 2: "DiscoverAndPlan env0 src0_rev (world0 ledger_retry) =
     (Inr (plan_of ledger_retry), logged OpGetAll (world0 ledger_retry))"
  proof -
    have h: "(\<forall>s. Join src0 s \<noteq> []) \<and> Join src0_rev = Join src0 \<and> ReadFile src0_rev = ReadFile src0 \<and>
        ReadDir src0 = Some listing_ok \<and> ReadDir src0_rev = Some (rev listing_ok) \<and>
        mset (rev listing_ok) = mset listing_ok"
      using j by (simp add: src0_rev_def src0_def)
    show ?thesis
      using p[THEN conjunct2, THEN conjunct2, THEN conjunct2, THEN conjunct1, rule_format, OF h] .
  qed
  have 3: "fst (DiscoverAndPlan env0 src0 (world0 (rev ledger_retry))) = Inr (plan_of ledger_retry)"
  proof -
    have h: "mset (ledger (world0 (rev ledger_retry))) = mset (ledger (world0 ledger_retry)) \<and>
        distinct (map (\<lambda>r. keyOf (Row.Version r) (Row.Name r)) (ledger (world0 ledger_retry))) \<and>
        trace (world0 (rev ledger_retry)) = trace (world0 ledger_retry)"
      using d by (simp add: world0_def)
    show ?thesis
      using p[THEN conjunct2, THEN conjunct2, THEN conjunct2, THEN conjunct2, rule_format, OF h] .
  qed
  show ?thesis using plan_retry 1 sb j m 2 d 3 by (intro conjI)
qed


end
